theory Spec2Isabelle
  imports Complex_Main "HOL-Library.Multiset"
begin

section \<open>Exceptions\<close>

text \<open>
  The notebooks are Python. Every exception a modelled statement can raise is a value:
  the class of the exception and its message. A function that can raise returns
  \<open>error + 'a\<close>, with \<open>Inl\<close> for the exception.
\<close>

datatype error =
    ValueError string
  | TypeError string
  | IndexError string
  | RuntimeError string
  | ZeroDivisionError string

fun is_ValueError :: "error + 'a \<Rightarrow> bool" where
  "is_ValueError (Inl (ValueError m)) = True"
| "is_ValueError r = False"

section \<open>The architecture builder (ConvNet notebook)\<close>

subsection \<open>Stripping the post-fix of a layer key\<close>

text \<open>
  \<^verbatim>\<open>layer_type = re.sub(r"_[\d\w]+", "", layer_type)\<close>

  A key is a Python \<open>str\<close>; this theory covers the code points below 256, one \<open>char\<close>
  each. For a \<open>str\<close> pattern the class \<open>\w\<close> holds the characters for which
  \<open>str.isalnum\<close> is true and the underscore; \<open>\d\<close> is a part of it. In the range
  of \<open>char\<close> these are the ASCII digits and letters, the underscore, and the Latin-1
  letters and numeric signs listed below.
\<close>

definition is_word :: "char \<Rightarrow> bool" where
  "is_word c =
     (let n = of_char c :: nat
      in (48 \<le> n \<and> n \<le> 57) \<or> (65 \<le> n \<and> n \<le> 90) \<or> n = 95 \<or> (97 \<le> n \<and> n \<le> 122)
         \<or> n = 170 \<or> n = 178 \<or> n = 179 \<or> n = 181 \<or> n = 185 \<or> n = 186
         \<or> (188 \<le> n \<and> n \<le> 190) \<or> (192 \<le> n \<and> n \<le> 214)
         \<or> (216 \<le> n \<and> n \<le> 246) \<or> (248 \<le> n \<and> n \<le> 255))"

text \<open>
  \<open>re.sub\<close> scans from the left. The pattern matches at an underscore that is followed
  by a word character and, being greedy with nothing after the \<open>+\<close>, takes every word
  character that follows; the match is replaced by the empty string and the scan goes on
  behind it. Any other character is kept.
\<close>

function re_sub_postfix :: "string \<Rightarrow> string" where
  "re_sub_postfix [] = []"
| "re_sub_postfix (c # cs) =
     (if c = CHR ''_'' \<and> cs \<noteq> [] \<and> is_word (hd cs)
      then re_sub_postfix (dropWhile is_word cs)
      else c # re_sub_postfix cs)"
  by pat_completeness auto
termination
  by (relation "measure length") (auto simp: le_imp_less_Suc length_dropWhile_le)

subsection \<open>Layers\<close>

text \<open>
  A layer of the module list is identified with the constructor call that makes it:
  the class and the positional arguments handed over. \<open>Flatten\<close> is the notebook's own
  class, the others are the framework's.
\<close>

datatype layer =
    Conv2d int int int int int
  | AvgPool2d int int int
  | MaxPool2d int int int
  | Flatten
  | Linear int int
  | ReLU
  | Sigmoid
  | Tanh

text \<open>
  \<open>layer_params\<close> is \<open>None\<close> or a tuple of integers. A tuple assignment
  \<^verbatim>\<open>a, b = layer_params\<close> raises \<open>TypeError\<close> on \<open>None\<close> and \<open>ValueError\<close> on
  a tuple of another length.
\<close>

type_synonym layer_params = "int list option"

definition unpack :: "nat \<Rightarrow> layer_params \<Rightarrow> error + int list" where
  "unpack n p =
     (case p of
        None \<Rightarrow> Inl (TypeError ''cannot unpack non-iterable NoneType object'')
      | Some xs \<Rightarrow>
          if length xs < n then Inl (ValueError ''not enough values to unpack'')
          else if n < length xs then Inl (ValueError ''too many values to unpack'')
          else Inr xs)"

text \<open>
  The constructors of the framework run inside \<open>__init__\<close>, and a constructor may raise
  instead of returning a module (\<open>nn.Linear(-1, 2)\<close> cannot create its weight). Which
  calls the framework refuses is not written in the notebook; it is a parameter of the
  builder: \<open>refuses l\<close> is the exception the constructor call \<open>l\<close> raises, or \<open>None\<close>
  when the call returns the module. \<open>Flatten\<close> has no constructor of its own and does
  not raise.
\<close>

definition new :: "(layer \<Rightarrow> error option) \<Rightarrow> layer \<Rightarrow> error + layer" where
  "new refuses l = (case refuses l of Some e \<Rightarrow> Inl e | None \<Rightarrow> Inr l)"

text \<open>The body of the loop of \<open>ConvNet.__init__\<close>, after the key has been stripped.\<close>

definition make_layer :: "(layer \<Rightarrow> error option) \<Rightarrow> string \<Rightarrow> layer_params \<Rightarrow> error + layer" where
  "make_layer refuses layer_type p =
     (if layer_type = ''Conv2d'' then
        (case unpack 5 p of
           Inl e \<Rightarrow> Inl e
         | Inr xs \<Rightarrow> new refuses (Conv2d (xs ! 0) (xs ! 1) (xs ! 2) (xs ! 3) (xs ! 4)))
      else if layer_type = ''AvgPool2d'' then
        (case unpack 3 p of
           Inl e \<Rightarrow> Inl e
         | Inr xs \<Rightarrow> new refuses (AvgPool2d (xs ! 0) (xs ! 1) (xs ! 2)))
      else if layer_type = ''MaxPool2d'' then
        (case unpack 3 p of
           Inl e \<Rightarrow> Inl e
         | Inr xs \<Rightarrow> new refuses (MaxPool2d (xs ! 0) (xs ! 1) (xs ! 2)))
      else if layer_type = ''Flatten'' then Inr Flatten
      else if layer_type = ''Linear'' then
        (case unpack 2 p of
           Inl e \<Rightarrow> Inl e
         | Inr xs \<Rightarrow> new refuses (Linear (xs ! 0) (xs ! 1)))
      else if layer_type = ''ReLU'' then new refuses ReLU
      else if layer_type = ''Sigmod'' then new refuses Sigmoid
      else if layer_type = ''Tanh'' then new refuses Tanh
      else Inl (ValueError (''Unsupported layer type: '' @ layer_type)))"

text \<open>
  \<open>ConvNet.__init__\<close>: \<open>self.layers\<close> starts empty and the loop over
  \<open>arch_dict.items()\<close> appends one layer per entry; the first exception ends it.
  The items of the \<open>OrderedDict\<close> are the list of its (key, value) pairs in insertion
  order.
\<close>

type_synonym arch_dict = "(string \<times> layer_params) list"

fun init_loop ::
  "(layer \<Rightarrow> error option) \<Rightarrow> arch_dict \<Rightarrow> layer list \<Rightarrow> error + layer list" where
  "init_loop refuses [] layers = Inr layers"
| "init_loop refuses ((layer_type, p) # rest) layers =
     (case make_layer refuses (re_sub_postfix layer_type) p of
        Inl e \<Rightarrow> Inl e
      | Inr l \<Rightarrow> init_loop refuses rest (layers @ [l]))"

definition ConvNet_init :: "(layer \<Rightarrow> error option) \<Rightarrow> arch_dict \<Rightarrow> error + layer list" where
  "ConvNet_init refuses arch = init_loop refuses arch []"

text \<open>
  \<open>ConvNet.forward\<close>: \<^verbatim>\<open>for layer in self.layers: x = layer(x)\<close>. What a layer
  computes is the framework's business: \<open>app l x\<close> is the value of \<open>l(x)\<close>, or the
  exception it raises (a shape that does not fit, for instance), which ends the pass.
\<close>

fun forward :: "(layer \<Rightarrow> 't \<Rightarrow> error + 't) \<Rightarrow> layer list \<Rightarrow> 't \<Rightarrow> error + 't" where
  "forward app [] x = Inr x"
| "forward app (l # ls) x =
     (case app l x of Inl e \<Rightarrow> Inl e | Inr y \<Rightarrow> forward app ls y)"

subsection \<open>What the builder is checked against\<close>

text \<open>
  The eight strings the chain of comparisons in \<open>__init__\<close> knows, the number of values
  each branch unpacks from \<open>layer_params\<close> (\<open>None\<close> where the branch does not look at
  them), and, read off a finished layer, the key of the branch that makes it and the
  arguments it was made with.
\<close>

definition handled :: "string list" where
  "handled =
     [''Conv2d'', ''AvgPool2d'', ''MaxPool2d'', ''Flatten'', ''Linear'', ''ReLU'', ''Sigmod'',
      ''Tanh'']"

definition arity :: "string \<Rightarrow> nat option" where
  "arity t =
     (if t = ''Conv2d'' then Some 5
      else if t = ''AvgPool2d'' then Some 3
      else if t = ''MaxPool2d'' then Some 3
      else if t = ''Linear'' then Some 2
      else None)"

fun layer_key :: "layer \<Rightarrow> string" where
  "layer_key (Conv2d a b c d e) = ''Conv2d''"
| "layer_key (AvgPool2d a b c) = ''AvgPool2d''"
| "layer_key (MaxPool2d a b c) = ''MaxPool2d''"
| "layer_key Flatten = ''Flatten''"
| "layer_key (Linear a b) = ''Linear''"
| "layer_key ReLU = ''ReLU''"
| "layer_key Sigmoid = ''Sigmod''"
| "layer_key Tanh = ''Tanh''"

fun layer_args :: "layer \<Rightarrow> int list" where
  "layer_args (Conv2d a b c d e) = [a, b, c, d, e]"
| "layer_args (AvgPool2d a b c) = [a, b, c]"
| "layer_args (MaxPool2d a b c) = [a, b, c]"
| "layer_args (Linear a b) = [a, b]"
| "layer_args l = []"

text \<open>
  An entry has parameters of the matching arity when its branch finds as many values as
  it unpacks; a branch that unpacks nothing accepts any value.
\<close>

definition arity_ok :: "string \<times> layer_params \<Rightarrow> bool" where
  "arity_ok e =
     (case arity (re_sub_postfix (fst e)) of
        None \<Rightarrow> True
      | Some n \<Rightarrow> (case snd e of None \<Rightarrow> False | Some xs \<Rightarrow> length xs = n))"

definition entry_ok :: "string \<times> layer_params \<Rightarrow> bool" where
  "entry_ok e = (re_sub_postfix (fst e) \<in> set handled \<and> arity_ok e)"

text \<open>
  A layer is the one an entry asks for: it is of the type the stripped key names and,
  where the type takes parameters, it was made with exactly the entry's tuple.
\<close>

definition built_from :: "string \<times> layer_params \<Rightarrow> layer \<Rightarrow> bool" where
  "built_from e l =
     (layer_key l = re_sub_postfix (fst e) \<and>
      (case arity (re_sub_postfix (fst e)) of
         None \<Rightarrow> layer_args l = []
       | Some n \<Rightarrow> snd e = Some (layer_args l)))"

text \<open>
  The framework accepts an entry when it does not refuse the constructor call the entry
  asks for. A \<open>Flatten\<close> entry asks nothing of the framework.
\<close>

definition accepted :: "(layer \<Rightarrow> error option) \<Rightarrow> string \<times> layer_params \<Rightarrow> bool" where
  "accepted refuses e = (\<forall>l. built_from e l \<and> l \<noteq> Flatten \<longrightarrow> refuses l = None)"

text \<open>
  The examples need one refusal of the framework: \<open>nn.Linear\<close> creates a weight of
  shape \<open>(out_features, in_features)\<close>, and a tensor with a negative size cannot be
  created. The other calls the examples make are those of the notebook's
  architectures, which the framework accepts (the notebook prints the networks).
\<close>

definition refuses_negative_features :: "layer \<Rightarrow> error option" where
  "refuses_negative_features l =
     (case l of
        Linear input_size output_size \<Rightarrow>
          if input_size < 0 \<or> output_size < 0
          then Some (RuntimeError ''Trying to create tensor with negative dimension'')
          else None
      | _ \<Rightarrow> None)"

text \<open>The LeNet-5 architecture for MNIST, as the notebook writes it.\<close>

definition lenet5_arch :: arch_dict where
  "lenet5_arch =
     [(''Conv2d_1'', Some [1, 6, 5, 1, 2]),
      (''Tanh_1a'', None),
      (''AvgPool2d_1'', Some [2, 2, 0]),
      (''Tanh_1b'', None),
      (''Conv2d_2'', Some [6, 16, 5, 1, 0]),
      (''Tanh_2a'', None),
      (''AvgPool2d_2'', Some [2, 2, 0]),
      (''Tanh_2b'', None),
      (''Flatten_3'', None),
      (''Linear_4'', Some [400, 120]),
      (''Tanh_4'', None),
      (''Linear_5'', Some [120, 84]),
      (''Tanh_5'', None),
      (''Linear_6'', Some [84, 10])]"

section \<open>The Flatten layer (ConvNet notebook)\<close>

text \<open>
  A tensor is its shape and its elements in row-major order; this is a tensor that lies
  contiguously in memory, as the output of a convolution or pooling layer does. Strides
  are not part of this theory.
\<close>

record 'a tensor =
  shape :: "nat list"
  elems :: "'a list"

text \<open>\<open>x.numel()\<close>: the product of the sizes.\<close>

definition numel :: "'a tensor \<Rightarrow> nat" where
  "numel x = prod_list (shape x)"

text \<open>
  \<^verbatim>\<open>x.view(d0, -1)\<close>. The framework infers the size written \<open>-1\<close> from the number of
  elements and the product \<open>newsize\<close> of the sizes that are given: the view is accepted
  when the number of elements equals \<open>newsize\<close> or is a multiple of a positive
  \<open>newsize\<close>; with \<open>newsize = 0\<close> the missing size could be anything and the framework
  raises. The elements stay where they are.
\<close>

definition view_rows :: "'a tensor \<Rightarrow> nat \<Rightarrow> error + 'a tensor" where
  "view_rows x d0 =
     (let newsize = d0
      in if numel x = newsize \<or> (0 < newsize \<and> numel x mod newsize = 0)
         then (if newsize = 0
               then Inl (RuntimeError ''cannot reshape tensor of 0 elements into shape [0, -1]'')
               else Inr (x\<lparr>shape := [d0, numel x div newsize]\<rparr>))
         else Inl (RuntimeError ''shape is invalid for input of size''))"

text \<open>
  \<open>Flatten.forward\<close>: \<^verbatim>\<open>x = x.view(x.size()[0], -1); return x\<close>. A tensor without
  dimensions has the empty \<open>x.size()\<close>, and indexing it raises \<open>IndexError\<close>.
\<close>

definition Flatten_forward :: "'a tensor \<Rightarrow> error + 'a tensor" where
  "Flatten_forward x =
     (case shape x of
        [] \<Rightarrow> Inl (IndexError ''tuple index out of range'')
      | d0 # rest \<Rightarrow> view_rows x d0)"

section \<open>Evaluation (ConvNet notebook)\<close>

text \<open>
  \<^verbatim>\<open>_, predicted = torch.max(output.data, 1)\<close>: for each row of the scores the index of
  its largest entry, the first one where several are largest. Scores are values of a
  linear order (floating-point numbers without NaN). A row without entries has no
  maximum, and the framework raises.
\<close>

fun argmax_from :: "'a::linorder list \<Rightarrow> nat \<Rightarrow> 'a \<Rightarrow> nat \<Rightarrow> nat" where
  "argmax_from [] i best pos = pos"
| "argmax_from (x # xs) i best pos =
     (if best < x then argmax_from xs (Suc i) x i else argmax_from xs (Suc i) best pos)"

definition argmax :: "'a::linorder list \<Rightarrow> nat" where
  "argmax row = (case row of [] \<Rightarrow> 0 | x # xs \<Rightarrow> argmax_from xs 1 x 0)"

definition torch_max_dim1 :: "'a::linorder list list \<Rightarrow> error + int list" where
  "torch_max_dim1 output =
     (if [] \<in> set output
      then Inl (IndexError ''max(): Expected reduction dim 1 to have non-zero size.'')
      else Inr (map (\<lambda>row. int (argmax row)) output))"

text \<open>
  \<^verbatim>\<open>(predicted == truth).sum().item()\<close>: the number of positions where the two
  one-dimensional tensors agree. Tensors of different lengths are compared by
  broadcasting when one of them has a single entry, and not at all otherwise.
\<close>

definition eq_sum :: "int list \<Rightarrow> int list \<Rightarrow> error + nat" where
  "eq_sum predicted truth =
     (if length predicted = length truth
      then Inr (length (filter (\<lambda>(a, b). a = b) (zip predicted truth)))
      else if length predicted = 1
      then Inr (length (filter (\<lambda>b. hd predicted = b) truth))
      else if length truth = 1
      then Inr (length (filter (\<lambda>a. a = hd truth) predicted))
      else Inl (RuntimeError ''The size of tensor a must match the size of tensor b''))"

text \<open>
  The loop of \<open>evaluate\<close>. The network \<open>model\<close> is an object with parameters \<open>m\<close>:
  calling it on the images of a batch gives the scores and the parameters it has
  afterwards, or raises. What a call does may depend on whether gradients are enabled
  (a forward pass can ask \<^verbatim>\<open>torch.is_grad_enabled()\<close>), so the call takes the mode
  as well. The loop is the body of \<^verbatim>\<open>with torch.no_grad():\<close>, so every call of the
  loop is made with the mode \<open>False\<close>.
\<close>

fun evaluate_loop ::
  "(bool \<Rightarrow> 'm \<Rightarrow> 'i \<Rightarrow> error + ('a::linorder list list \<times> 'm)) \<Rightarrow> ('i \<times> int list) list \<Rightarrow>
     'm \<Rightarrow> nat \<Rightarrow> nat \<Rightarrow> error + (nat \<times> nat \<times> 'm)" where
  "evaluate_loop model [] m correct total' = Inr (correct, total', m)"
| "evaluate_loop model ((images, truth) # rest) m correct total' =
     (case model False m images of
        Inl e \<Rightarrow> Inl e
      | Inr (output, m') \<Rightarrow>
          (case torch_max_dim1 output of
             Inl e \<Rightarrow> Inl e
           | Inr predicted \<Rightarrow>
               (case eq_sum predicted truth of
                  Inl e \<Rightarrow> Inl e
                | Inr c \<Rightarrow> evaluate_loop model rest m' (correct + c) (total' + length truth))))"

text \<open>
  \<open>evaluate\<close> prints the format string filled with \<open>total\<close> and
  \<^verbatim>\<open>100 * correct / total\<close>; here it returns these two values, the quotient as the
  exact rational number that Python rounds to a float, and the parameters of the network
  after the loop. Division by zero raises.
\<close>

definition evaluate ::
  "(bool \<Rightarrow> 'm \<Rightarrow> 'i \<Rightarrow> error + ('a::linorder list list \<times> 'm)) \<Rightarrow> 'm \<Rightarrow>
     ('i \<times> int list) list \<Rightarrow> error + (nat \<times> rat \<times> 'm)" where
  "evaluate model m test_data =
     (case evaluate_loop model test_data m 0 0 of
        Inl e \<Rightarrow> Inl e
      | Inr (correct, total', m') \<Rightarrow>
          if total' = 0 then Inl (ZeroDivisionError ''division by zero'')
          else Inr (total', of_nat (100 * correct) / of_nat total', m'))"

text \<open>
  What the accuracy is checked against. \<open>forward_passes call m xs\<close> are the scores that
  successive calls of the network on the inputs \<open>xs\<close> return, and the parameters after
  the last of them. \<open>scores_for\<close> says that a score matrix has one row for each label
  and that no row is empty. \<open>hits\<close> counts the samples whose predicted class is their
  label.
\<close>

fun forward_passes ::
  "('m \<Rightarrow> 'i \<Rightarrow> error + ('o \<times> 'm)) \<Rightarrow> 'm \<Rightarrow> 'i list \<Rightarrow> error + ('o list \<times> 'm)" where
  "forward_passes call m [] = Inr ([], m)"
| "forward_passes call m (x # xs) =
     (case call m x of
        Inl e \<Rightarrow> Inl e
      | Inr (out, m') \<Rightarrow>
          (case forward_passes call m' xs of
             Inl e \<Rightarrow> Inl e
           | Inr (outs, m'') \<Rightarrow> Inr (out # outs, m'')))"

definition scores_for :: "'a list list \<Rightarrow> int list \<Rightarrow> bool" where
  "scores_for out truth = (length out = length truth \<and> [] \<notin> set out)"

definition hits :: "'a::linorder list list \<Rightarrow> int list \<Rightarrow> nat" where
  "hits output truth = length (filter (\<lambda>(row, label). int (argmax row) = label) (zip output truth))"

text \<open>
  Networks for the examples. The input of each is the score matrix itself. The first
  returns it and keeps its parameters; the second also counts its forward passes in its
  parameters; the third has a forward pass that raises.
\<close>

definition scores_model :: "bool \<Rightarrow> nat \<Rightarrow> int list list \<Rightarrow> error + (int list list \<times> nat)" where
  "scores_model grad m x = Inr (x, m)"

definition counting_model :: "bool \<Rightarrow> nat \<Rightarrow> int list list \<Rightarrow> error + (int list list \<times> nat)" where
  "counting_model grad m x = Inr (x, Suc m)"

definition raising_model :: "bool \<Rightarrow> nat \<Rightarrow> int list list \<Rightarrow> error + (int list list \<times> nat)" where
  "raising_model grad m x = Inl (RuntimeError ''size mismatch'')"

section \<open>Sequence batching (sequence-batching notebook)\<close>

subsection \<open>Padded batches\<close>

text \<open>
  The notebooks batch sequence first: a padded batch is a tensor of shape \<open>(T, B)\<close>,
  or \<open>(T, B, E)\<close> once embedded. The record keeps the batch size \<open>B\<close> and the \<open>T\<close>
  slices along the time dimension, each a list of \<open>B\<close> entries.
\<close>

record 'a seq_tensor =
  width :: nat
  steps :: "'a list list"

definition max_list :: "nat list \<Rightarrow> nat" where
  "max_list xs = foldr max xs 0"

text \<open>
  \<^verbatim>\<open>rnn_utils.pad_sequence(sequences)\<close>: the framework takes the trailing shape from
  \<open>sequences[0]\<close>, the number of steps from the longest sequence, fills the tensor with
  the padding value \<open>0\<close> and copies sequence \<open>i\<close> into column \<open>i\<close>.
\<close>

definition pad_sequence :: "'a::zero list list \<Rightarrow> error + 'a seq_tensor" where
  "pad_sequence sequences =
     (if sequences = [] then Inl (IndexError ''list index out of range'')
      else Inr \<lparr>width = length sequences,
                steps = map (\<lambda>t. map (\<lambda>s. if t < length s then s ! t else 0) sequences)
                          [0..<max_list (map length sequences)]\<rparr>)"

subsection \<open>Sorting and gathering\<close>

text \<open>
  \<^verbatim>\<open>vals, idx = xs.sort(descending=...)\<close>. The framework promises the sorted values
  and the indices that take \<open>xs\<close> to them; it does not promise an order among equal
  values. A call is therefore described by what it may return: \<open>idx\<close> is a permutation
  of the positions of \<open>xs\<close>, \<open>vals\<close> lists \<open>xs\<close> in that order, and \<open>vals\<close> is sorted
  as asked.
\<close>

definition torch_sort_result :: "bool \<Rightarrow> 'a::linorder list \<Rightarrow> 'a list \<Rightarrow> nat list \<Rightarrow> bool" where
  "torch_sort_result descending xs vals idx =
     (sort idx = [0..<length xs] \<and> vals = map (\<lambda>i. xs ! i) idx \<and>
      (if descending then sorted (rev vals) else sorted vals))"

text \<open>\<^verbatim>\<open>v.repeat(n, 1)\<close> of a one-dimensional \<open>v\<close>: \<open>n\<close> rows, each \<open>v\<close>.\<close>

definition repeat_rows :: "nat \<Rightarrow> 'a list \<Rightarrow> 'a seq_tensor" where
  "repeat_rows n v = \<lparr>width = length v, steps = replicate n v\<rparr>"

text \<open>
  \<^verbatim>\<open>inp.gather(dim=1, index=index)\<close>: \<open>out[t][j] = inp[t][index[t][j]]\<close>, of the shape
  of \<open>index\<close>. The index must have as many rows as the input and may only name columns
  of the input.
\<close>

definition gather1 :: "'a seq_tensor \<Rightarrow> nat seq_tensor \<Rightarrow> error + 'a seq_tensor" where
  "gather1 inp index =
     (if length (steps index) \<noteq> length (steps inp)
      then Inl (RuntimeError ''Expected tensor and index to have the same size apart from dimension 1'')
      else if \<not> list_all (list_all (\<lambda>j. j < width inp)) (steps index)
      then Inl (RuntimeError ''Invalid index in gather'')
      else Inr \<lparr>width = width index,
                steps = map2 (\<lambda>row irow. map (\<lambda>j. row ! j) irow) (steps inp) (steps index)\<rparr>)"

subsection \<open>Packing\<close>

text \<open>
  A \<open>PackedSequence\<close>: the entries of the batch step by step, without the padding, and
  for each step the number of sequences that are still running.
\<close>

record 'a packed =
  data :: "'a list"
  batch_sizes :: "nat list"

definition batch_size_at :: "nat list \<Rightarrow> nat \<Rightarrow> nat" where
  "batch_size_at lengths t = length (filter (\<lambda>l. t < l) lengths)"

text \<open>
  \<^verbatim>\<open>rnn_utils.pack_padded_sequence(inp, lengths)\<close>. The framework wants one length
  for each column, the last (smallest) length positive, and the lengths in decreasing
  order. It then has \<open>lengths[0]\<close> steps; step \<open>t\<close> holds the first
  \<open>batch_sizes[t]\<close> entries of row \<open>t\<close> of the input, \<open>batch_sizes[t]\<close> being the
  number of sequences longer than \<open>t\<close>. Rows are sliced, so a length beyond the last row
  adds no data. A batch without columns does not reach this function in the notebooks
  (\<open>pad_sequence\<close> raises before); it is rejected here.
\<close>

definition pack_padded_sequence :: "'a seq_tensor \<Rightarrow> nat list \<Rightarrow> error + 'a packed" where
  "pack_padded_sequence inp lengths =
     (if length lengths \<noteq> width inp
      then Inl (RuntimeError ''Expected `len(lengths)` to be equal to batch_size'')
      else if lengths = [] \<or> last lengths = 0
      then Inl (RuntimeError ''Length of all samples has to be greater than 0'')
      else if \<not> sorted (rev lengths)
      then Inl (RuntimeError ''`lengths` array must be sorted in decreasing order'')
      else Inr \<lparr>data = concat (map (\<lambda>t. take (batch_size_at lengths t) (steps inp ! t))
                               [0..<min (hd lengths) (length (steps inp))]),
                batch_sizes = map (batch_size_at lengths) [0..<hd lengths]\<rparr>)"

text \<open>
  \<^verbatim>\<open>rnn_utils.pad_packed_sequence(p)\<close>: the padded tensor, \<open>batch_sizes[0]\<close> wide,
  with \<open>0\<close> where a sequence has ended, and the lengths of the sequences.
\<close>

fun unpack_steps :: "nat \<Rightarrow> 'a::zero list \<Rightarrow> nat list \<Rightarrow> 'a list list" where
  "unpack_steps B d [] = []"
| "unpack_steps B d (b # bs) = (take b d @ replicate (B - b) 0) # unpack_steps B (drop b d) bs"

definition pad_packed_sequence :: "'a::zero packed \<Rightarrow> error + ('a seq_tensor \<times> nat list)" where
  "pad_packed_sequence p =
     (case batch_sizes p of
        [] \<Rightarrow> Inl (RuntimeError ''batch_sizes is empty'')
      | B # _ \<Rightarrow>
          Inr (\<lparr>width = B, steps = unpack_steps B (data p) (batch_sizes p)\<rparr>,
               map (\<lambda>j. length (filter (\<lambda>b. j < b) (batch_sizes p))) [0..<B]))"

subsection \<open>The two ways to a packed batch\<close>

text \<open>
  \<^verbatim>\<open>input_, target = zip( *batch)\<close>: the inputs and the targets of the pairs. On an
  empty batch \<open>zip\<close> yields nothing and the assignment raises.
\<close>

definition zip_star :: "('a \<times> 'b) list \<Rightarrow> error + ('a list \<times> 'b list)" where
  "zip_star batch =
     (if batch = [] then Inl (ValueError ''not enough values to unpack'')
      else Inr (map fst batch, map snd batch))"

text \<open>
  \<^verbatim>\<open>sorted(batch, key=lambda b: len(b[0]), reverse=True)\<close>. Python's sort is stable,
  also with \<open>reverse=True\<close>: pairs whose inputs are equally long keep their order. That
  is the stable sort by the negated length.
\<close>

definition sorted_batch :: "('a list \<times> 'b) list \<Rightarrow> ('a list \<times> 'b) list" where
  "sorted_batch batch = sort_key (\<lambda>b. - int (length (fst b))) batch"

text \<open>
  Option 2 of the notebook: sort the pairs, pad the inputs, pack them with their lengths.
  (The targets are padded as well; that does not touch the packed inputs.)
\<close>

definition pack_presorted :: "('a::zero list \<times> 'b) list \<Rightarrow> error + 'a packed" where
  "pack_presorted batch =
     (case zip_star (sorted_batch batch) of
        Inl e \<Rightarrow> Inl e
      | Inr (input_presorted, target_presorted) \<Rightarrow>
          (case pad_sequence input_presorted of
             Inl e \<Rightarrow> Inl e
           | Inr padded_input_presorted \<Rightarrow>
               pack_padded_sequence padded_input_presorted (map length input_presorted)))"

text \<open>
  Option 1 of the notebook: pad the inputs as they come, sort the lengths in descending
  order, gather the columns of the padded tensor by the sort indices (repeated for
  \<open>max_length = sorted_lengths[0]\<close> steps) and pack with the sorted lengths.
  \<open>sorted_lengths\<close> and \<open>sort_idx\<close> are what
  \<^verbatim>\<open>lengths.sort(descending=True)\<close> returned.
\<close>

definition pack_gathered ::
  "('a::zero list \<times> 'b) list \<Rightarrow> nat list \<Rightarrow> nat list \<Rightarrow> error + 'a packed" where
  "pack_gathered batch sorted_lengths sort_idx =
     (case zip_star batch of
        Inl e \<Rightarrow> Inl e
      | Inr (input, target) \<Rightarrow>
          (case pad_sequence input of
             Inl e \<Rightarrow> Inl e
           | Inr input_orig \<Rightarrow>
               (case sorted_lengths of
                  [] \<Rightarrow> Inl (IndexError ''index 0 is out of bounds for dimension 0 with size 0'')
                | max_length # _ \<Rightarrow>
                    (case gather1 input_orig (repeat_rows max_length sort_idx) of
                       Inl e \<Rightarrow> Inl e
                     | Inr input_sorted \<Rightarrow> pack_padded_sequence input_sorted sorted_lengths))))"

text \<open>The batch of the notebook, its padded inputs and their sorted columns.\<close>

definition notebook_batch :: "(int list \<times> int list) list" where
  "notebook_batch =
     [([1, 1, 1], [1, 1, 1, 1]), ([2, 2, 2, 2, 2], [2, 2, 2, 2]), ([3, 3], [3, 3, 3]),
      ([4, 4, 4], [4, 4, 4]), ([5, 5, 5, 5], [5, 5, 5, 5, 5])]"

definition notebook_input_orig :: "int seq_tensor" where
  "notebook_input_orig = \<lparr>width = 5,
     steps = [[1, 2, 3, 4, 5], [1, 2, 3, 4, 5], [1, 2, 0, 4, 5], [0, 2, 0, 0, 5], [0, 2, 0, 0, 0]]\<rparr>"

definition notebook_input_sorted :: "int seq_tensor" where
  "notebook_input_sorted = \<lparr>width = 5,
     steps = [[2, 5, 1, 4, 3], [2, 5, 1, 4, 3], [2, 5, 1, 4, 0], [2, 5, 0, 0, 0], [2, 0, 0, 0, 0]]\<rparr>"

text \<open>
  A batch of 17 pairs whose inputs are equally long and are told apart by their entry.
\<close>

definition equal_lengths_batch :: "(int list \<times> int list) list" where
  "equal_lengths_batch =
     [([1], [1]), ([2], [2]), ([3], [3]), ([4], [4]), ([5], [5]), ([6], [6]), ([7], [7]),
      ([8], [8]), ([9], [9]), ([10], [10]), ([11], [11]), ([12], [12]), ([13], [13]),
      ([14], [14]), ([15], [15]), ([16], [16]), ([17], [17])]"

section \<open>Recurrent hidden states (hidden-state notebook)\<close>

text \<open>
  \<^verbatim>\<open>test_embedding(test_inputs_padded)\<close>: every token is replaced by its row of the
  embedding table. \<open>emb\<close> is the lookup; tokens are taken to lie within the table.
\<close>

definition embedding :: "('tok \<Rightarrow> 'x) \<Rightarrow> 'tok seq_tensor \<Rightarrow> 'x seq_tensor" where
  "embedding emb inp = \<lparr>width = width inp, steps = map (map emb) (steps inp)\<rparr>"

text \<open>
  \<open>test_rnn\<close> is a one-layer \<open>nn.RNN\<close>. It takes a padded tensor or a packed sequence
  and the initial hidden states, one for each sequence of the batch, and returns the
  outputs and the final hidden states; only the final hidden states are kept here. \<open>cell\<close>
  is the recurrence: the next hidden state of one sequence from its input and its hidden
  state.

  One step updates the hidden states of the sequences it has input for, the first
  \<open>length xs\<close> of the batch, and leaves the others as they are. On a padded tensor
  every step has input for the whole batch. On a packed sequence step \<open>t\<close> has the next
  \<open>batch_sizes[t]\<close> entries of the data.
\<close>

datatype 'x rnn_input = TensorInput "'x seq_tensor" | PackedSequence "'x packed"

definition rnn_step :: "('x \<Rightarrow> 'h \<Rightarrow> 'h) \<Rightarrow> 'x list \<Rightarrow> 'h list \<Rightarrow> 'h list" where
  "rnn_step cell xs h = map2 cell xs (take (length xs) h) @ drop (length xs) h"

fun rnn_packed_loop :: "('x \<Rightarrow> 'h \<Rightarrow> 'h) \<Rightarrow> 'x list \<Rightarrow> nat list \<Rightarrow> 'h list \<Rightarrow> 'h list" where
  "rnn_packed_loop cell d [] h = h"
| "rnn_packed_loop cell d (b # bs) h =
     rnn_packed_loop cell (drop b d) bs (rnn_step cell (take b d) h)"

text \<open>
  The framework checks that there is one initial hidden state for each sequence, and it
  cannot stack the outputs of an input without steps.
\<close>

definition RNN_forward ::
  "('x \<Rightarrow> 'h \<Rightarrow> 'h) \<Rightarrow> 'x rnn_input \<Rightarrow> 'h list \<Rightarrow> error + 'h list" where
  "RNN_forward cell inp h0 =
     (case inp of
        TensorInput x \<Rightarrow>
          if length h0 \<noteq> width x then Inl (RuntimeError ''Expected hidden size'')
          else if steps x = [] then Inl (RuntimeError ''stack expects a non-empty TensorList'')
          else Inr (foldl (\<lambda>h xs. rnn_step cell xs h) h0 (steps x))
      | PackedSequence p \<Rightarrow>
          (case batch_sizes p of
             [] \<Rightarrow> Inl (RuntimeError ''stack expects a non-empty TensorList'')
           | B # _ \<Rightarrow>
               if length h0 \<noteq> B then Inl (RuntimeError ''Expected hidden size'')
               else Inr (rnn_packed_loop cell (data p) (batch_sizes p) h0)))"

text \<open>
  The body of the loop over the samples:
  \<^verbatim>\<open>seq_embedded = test_embedded[:, j, :].view(5, 1, 3)[:seq_length]\<close>, a batch of one
  sequence cut at its length, and
  \<^verbatim>\<open>out_j, h_t_j = test_rnn(seq_embedded, test_h0_single)\<close>.
\<close>

definition select_sequence :: "'x seq_tensor \<Rightarrow> nat \<Rightarrow> nat \<Rightarrow> error + 'x seq_tensor" where
  "select_sequence inp j seq_length =
     (if width inp \<le> j then Inl (IndexError ''index is out of bounds for dimension 1'')
      else Inr \<lparr>width = 1, steps = map (\<lambda>row. [row ! j]) (take seq_length (steps inp))\<rparr>)"

definition single_hn ::
  "('x \<Rightarrow> 'h \<Rightarrow> 'h) \<Rightarrow> 'x seq_tensor \<Rightarrow> nat \<Rightarrow> nat \<Rightarrow> 'h \<Rightarrow> error + 'h list" where
  "single_hn cell embedded j seq_length h0_single =
     (case select_sequence embedded j seq_length of
        Inl e \<Rightarrow> Inl e
      | Inr seq_embedded \<Rightarrow> RNN_forward cell (TensorInput seq_embedded) [h0_single])"

text \<open>The recurrence run over one sequence by itself.\<close>

definition run_cell :: "('x \<Rightarrow> 'h \<Rightarrow> 'h) \<Rightarrow> 'h \<Rightarrow> 'x list \<Rightarrow> 'h" where
  "run_cell cell h0 xs = foldl (\<lambda>h x. cell x h) h0 xs"

text \<open>
  The recurrence of \<open>nn.RNN\<close> with its default non-linearity:
  \<open>h' = tanh(W_ih x + b_ih + W_hh h + b_hh)\<close>, over the real numbers that the
  floating-point numbers of the framework stand for.
\<close>

record rnn_weights =
  weight_ih :: "real list list"
  weight_hh :: "real list list"
  bias_ih :: "real list"
  bias_hh :: "real list"

definition matvec :: "real list list \<Rightarrow> real list \<Rightarrow> real list" where
  "matvec W x = map (\<lambda>row. sum_list (map2 (\<lambda>a b. a * b) row x)) W"

definition rnn_tanh_cell :: "rnn_weights \<Rightarrow> real list \<Rightarrow> real list \<Rightarrow> real list" where
  "rnn_tanh_cell w x h =
     map tanh (map2 (+) (map2 (+) (matvec (weight_ih w) x) (bias_ih w))
                        (map2 (+) (matvec (weight_hh w) h) (bias_hh w)))"

text \<open>
  A network of one input and one hidden unit, and an embedding of one dimension that
  sends the padding token \<open>0\<close> to the zero vector, as \<open>padding_idx=0\<close> does.
\<close>

definition demo_weights :: rnn_weights where
  "demo_weights = \<lparr>weight_ih = [[1]], weight_hh = [[1]], bias_ih = [0], bias_hh = [0]\<rparr>"

definition demo_embedding :: "nat \<Rightarrow> real list" where
  "demo_embedding tok = [real tok]"

text \<open>The batch of the notebook, padded and packed (tokens embedded as integers).\<close>

definition test_inputs :: "nat list list" where
  "test_inputs = [[1, 1, 1, 1, 1], [2, 2, 2, 2], [3, 3, 3], [4, 4], [5, 5]]"

definition test_inputs_padded :: "nat seq_tensor" where
  "test_inputs_padded = \<lparr>width = 5,
     steps = [[1, 2, 3, 4, 5], [1, 2, 3, 4, 5], [1, 2, 3, 0, 0], [1, 2, 0, 0, 0], [1, 0, 0, 0, 0]]\<rparr>"

definition test_packed_input :: "int packed" where
  "test_packed_input =
     \<lparr>data = [1, 2, 3, 4, 5, 1, 2, 3, 4, 5, 1, 2, 3, 1, 2, 1], batch_sizes = [5, 5, 3, 2, 1]\<rparr>"

section \<open>Properties of the architecture builder\<close>

lemma list5: "length xs = 5 \<Longrightarrow> [xs ! 0, xs ! 1, xs ! 2, xs ! 3, xs ! 4] = xs"
  by (auto simp: list_eq_iff_nth_eq less_Suc_eq numeral_eq_Suc)

lemma list3: "length xs = 3 \<Longrightarrow> [xs ! 0, xs ! 1, xs ! 2] = xs"
  by (auto simp: list_eq_iff_nth_eq less_Suc_eq numeral_eq_Suc)

lemma list2: "length xs = 2 \<Longrightarrow> [xs ! 0, xs ! 1] = xs"
  by (auto simp: list_eq_iff_nth_eq less_Suc_eq numeral_eq_Suc)

lemma unpack_ok: "length xs = n \<Longrightarrow> unpack n (Some xs) = Inr xs"
  by (simp add: unpack_def)

lemma arity_okD:
  "arity_ok (k, p) \<Longrightarrow> arity (re_sub_postfix k) = Some n \<Longrightarrow> \<exists>xs. p = Some xs \<and> length xs = n"
  by (auto simp: arity_ok_def split: option.splits)

lemma new_accepted: "refuses l = None \<Longrightarrow> new refuses l = Inr l"
  by (simp add: new_def)

text \<open>
  One pass through the body of the loop, on an entry of a known type and right arity
  that the framework accepts.
\<close>

lemma make_layer_ok:
  assumes h: "re_sub_postfix k \<in> set handled" and a: "arity_ok (k, p)"
    and f: "accepted refuses (k, p)"
  shows "\<exists>l. make_layer refuses (re_sub_postfix k) p = Inr l \<and> built_from (k, p) l"
proof -
  let ?t = "re_sub_postfix k"
  have acc: "new refuses l = Inr l" if "built_from (k, p) l" and "l \<noteq> Flatten" for l
    using f that by (simp add: accepted_def new_accepted)
  from h consider "?t = ''Conv2d''" | "?t = ''AvgPool2d''" | "?t = ''MaxPool2d''"
    | "?t = ''Flatten''" | "?t = ''Linear''" | "?t = ''ReLU''" | "?t = ''Sigmod''" | "?t = ''Tanh''"
    by (auto simp: handled_def)
  then show ?thesis
  proof cases
    case 1
    then have "arity ?t = Some 5" by (simp add: arity_def)
    from arity_okD [OF a this] obtain xs where p: "p = Some xs" and n: "length xs = 5" by blast
    have b: "built_from (k, p) (Conv2d (xs ! 0) (xs ! 1) (xs ! 2) (xs ! 3) (xs ! 4))"
      using 1 list5 [OF n] by (simp add: p built_from_def arity_def)
    show ?thesis
      using 1 n b acc [OF b] by (simp add: p make_layer_def unpack_ok)
  next
    case 2
    then have "arity ?t = Some 3" by (simp add: arity_def)
    from arity_okD [OF a this] obtain xs where p: "p = Some xs" and n: "length xs = 3" by blast
    have b: "built_from (k, p) (AvgPool2d (xs ! 0) (xs ! 1) (xs ! 2))"
      using 2 list3 [OF n] by (simp add: p built_from_def arity_def)
    show ?thesis
      using 2 n b acc [OF b] by (simp add: p make_layer_def unpack_ok)
  next
    case 3
    then have "arity ?t = Some 3" by (simp add: arity_def)
    from arity_okD [OF a this] obtain xs where p: "p = Some xs" and n: "length xs = 3" by blast
    have b: "built_from (k, p) (MaxPool2d (xs ! 0) (xs ! 1) (xs ! 2))"
      using 3 list3 [OF n] by (simp add: p built_from_def arity_def)
    show ?thesis
      using 3 n b acc [OF b] by (simp add: p make_layer_def unpack_ok)
  next
    case 4
    then show ?thesis by (simp add: make_layer_def built_from_def arity_def)
  next
    case 5
    then have "arity ?t = Some 2" by (simp add: arity_def)
    from arity_okD [OF a this] obtain xs where p: "p = Some xs" and n: "length xs = 2" by blast
    have b: "built_from (k, p) (Linear (xs ! 0) (xs ! 1))"
      using 5 list2 [OF n] by (simp add: p built_from_def arity_def)
    show ?thesis
      using 5 n b acc [OF b] by (simp add: p make_layer_def unpack_ok)
  next
    case 6
    then have b: "built_from (k, p) ReLU" by (simp add: built_from_def arity_def)
    show ?thesis using 6 b acc [OF b] by (simp add: make_layer_def)
  next
    case 7
    then have b: "built_from (k, p) Sigmoid" by (simp add: built_from_def arity_def)
    show ?thesis using 7 b acc [OF b] by (simp add: make_layer_def)
  next
    case 8
    then have b: "built_from (k, p) Tanh" by (simp add: built_from_def arity_def)
    show ?thesis using 8 b acc [OF b] by (simp add: make_layer_def)
  qed
qed

lemma make_layer_unsupported:
  "t \<notin> set handled \<Longrightarrow>
   make_layer refuses t p = Inl (ValueError (''Unsupported layer type: '' @ t))"
  by (simp add: make_layer_def handled_def)

text \<open>The loop, started with any list of layers already appended.\<close>

lemma init_loop_ok:
  "list_all entry_ok arch \<Longrightarrow> list_all (accepted refuses) arch \<Longrightarrow>
   \<exists>ls. init_loop refuses arch acc = Inr (acc @ ls) \<and> list_all2 built_from arch ls"
proof (induction arch arbitrary: acc)
  case Nil
  then show ?case by simp
next
  case (Cons e arch)
  obtain k p where e: "e = (k, p)" by (cases e)
  from Cons.prems(1) have "entry_ok (k, p)" and rest: "list_all entry_ok arch"
    by (simp_all add: e)
  then have ok: "re_sub_postfix k \<in> set handled" "arity_ok (k, p)"
    by (simp_all add: entry_ok_def)
  from Cons.prems(2) have f: "accepted refuses (k, p)" and frest: "list_all (accepted refuses) arch"
    by (simp_all add: e)
  from make_layer_ok [OF ok f] obtain l
    where l: "make_layer refuses (re_sub_postfix k) p = Inr l" and b: "built_from (k, p) l"
    by blast
  from Cons.IH [OF rest frest, of "acc @ [l]"] obtain ls
    where "init_loop refuses arch (acc @ [l]) = Inr ((acc @ [l]) @ ls)"
      and "list_all2 built_from arch ls"
    by blast
  then show ?case
    using l b by (intro exI [of _ "l # ls"]) (simp add: e)
qed

lemma init_loop_ValueError:
  "list_all arity_ok arch \<Longrightarrow> list_all (accepted refuses) arch \<Longrightarrow>
   is_ValueError (init_loop refuses arch acc) \<longleftrightarrow>
     (\<exists>e \<in> set arch. re_sub_postfix (fst e) \<notin> set handled)"
proof (induction arch arbitrary: acc)
  case Nil
  then show ?case by simp
next
  case (Cons e arch)
  obtain k p where e: "e = (k, p)" by (cases e)
  from Cons.prems(1) have a: "arity_ok (k, p)" and rest: "list_all arity_ok arch"
    by (simp_all add: e)
  from Cons.prems(2) have f: "accepted refuses (k, p)" and frest: "list_all (accepted refuses) arch"
    by (simp_all add: e)
  show ?case
  proof (cases "re_sub_postfix k \<in> set handled")
    case True
    from make_layer_ok [OF True a f] obtain l
      where l: "make_layer refuses (re_sub_postfix k) p = Inr l" by blast
    show ?thesis
      using True l Cons.IH [OF rest frest, of "acc @ [l]"] by (simp add: e)
  next
    case False
    then show ?thesis
      by (simp add: e make_layer_unsupported)
  qed
qed

text \<open>
  The framework of the examples accepts every entry whose parameters are not negative.
\<close>

lemma accepted_nonnegative:
  assumes "case snd e of None \<Rightarrow> True | Some xs \<Rightarrow> list_all (\<lambda>x. 0 \<le> x) xs"
  shows "accepted refuses_negative_features e"
  unfolding accepted_def
proof (intro allI impI)
  fix l
  assume "built_from e l \<and> l \<noteq> Flatten"
  then have b: "built_from e l" by (rule conjunct1)
  show "refuses_negative_features l = None"
  proof (cases l)
    case (Linear i j)
    from b have "layer_key l = re_sub_postfix (fst e)"
      unfolding built_from_def by (rule conjunct1)
    then have "re_sub_postfix (fst e) = layer_key l" by (rule sym)
    also have "layer_key l = ''Linear''" by (simp add: Linear)
    finally have k: "re_sub_postfix (fst e) = ''Linear''" .
    have "arity (re_sub_postfix (fst e)) = Some 2"
      unfolding k by (simp add: arity_def)
    with b have "snd e = Some (layer_args l)"
      unfolding built_from_def by simp
    then have "snd e = Some [i, j]" by (simp add: Linear)
    with assms show ?thesis
      by (simp add: Linear refuses_negative_features_def)
  qed (simp_all add: refuses_negative_features_def)
qed

text \<open>
  On a key that is a type name without underscore, alone or followed by an underscore
  and one or more word characters, the substitution leaves the type name.
\<close>

lemma re_sub_postfix_no_underscore:
  "CHR ''_'' \<notin> set t \<Longrightarrow> re_sub_postfix t = t"
  by (induction t) auto

lemma re_sub_postfix_strips:
  assumes "CHR ''_'' \<notin> set t" and "suffix \<noteq> []" and "list_all is_word suffix"
  shows "re_sub_postfix (t @ CHR ''_'' # suffix) = t"
  using assms(1)
proof (induction t)
  case Nil
  have dw: "dropWhile is_word suffix = []" using assms(3) by (simp add: list_all_iff)
  have "is_word (hd suffix)" using assms(2,3) by (cases suffix) auto
  then show ?case using assms(2) by (simp add: dw)
next
  case (Cons c t)
  then show ?case by auto
qed

lemma lenet5_arch_ok: "list_all entry_ok lenet5_arch"
  by (simp add: lenet5_arch_def entry_ok_def arity_ok_def arity_def handled_def is_word_def)

lemma lenet5_arch_accepted: "list_all (accepted refuses_negative_features) lenet5_arch"
  by (simp add: lenet5_arch_def accepted_nonnegative)

text \<open>
  C1, as the code has it. When every key of the architecture, once stripped, is one of
  the eight handled strings and comes with parameters of the matching arity, and the
  framework accepts the constructor call of every entry, \<open>ConvNet.__init__\<close> raises
  nothing and leaves a list with exactly one layer per entry, in the order of the
  entries; the layer at each position has the type the stripped key names and was made
  with exactly the parameters of that entry.
\<close>

theorem ConvNet_init_builds:
  assumes "list_all entry_ok arch" and "list_all (accepted refuses) arch"
  shows "\<exists>layers. ConvNet_init refuses arch = Inr layers \<and> length layers = length arch \<and>
           (\<forall>i < length arch. built_from (arch ! i) (layers ! i))"
proof -
  from init_loop_ok [OF assms, of "[]"] obtain ls
    where "init_loop refuses arch [] = Inr ls" and "list_all2 built_from arch ls" by auto
  then show ?thesis
    by (auto simp: ConvNet_init_def list_all2_conv_all_nth)
qed

theorem ConvNet_init_builds_witness:
  "list_all entry_ok lenet5_arch \<and>
   ConvNet_init refuses_negative_features lenet5_arch =
     Inr [Conv2d 1 6 5 1 2, Tanh, AvgPool2d 2 2 0, Tanh, Conv2d 6 16 5 1 0, Tanh,
          AvgPool2d 2 2 0, Tanh, Flatten, Linear 400 120, Tanh, Linear 120 84, Tanh,
          Linear 84 10]"
  using ConvNet_init_builds [OF lenet5_arch_ok lenet5_arch_accepted] lenet5_arch_ok
  by (simp add: ConvNet_init_def lenet5_arch_def make_layer_def unpack_def is_word_def new_def
      refuses_negative_features_def)

text \<open>
  C1 as stated fails where the framework refuses the parameters: the entry
  \<open>Linear_1 : (-1, 2)\<close> has a handled key and a tuple of the matching arity, and
  \<open>nn.Linear(-1, 2)\<close> raises \<open>RuntimeError\<close> inside \<open>__init__\<close>, which builds no list.
\<close>

theorem ConvNet_init_builds_counterexample:
  "list_all entry_ok [(''Linear_1'', Some [-1, 2])] \<and>
   ConvNet_init refuses_negative_features [(''Linear_1'', Some [-1, 2])] =
     Inl (RuntimeError ''Trying to create tensor with negative dimension'')"
  by (simp add: entry_ok_def arity_ok_def arity_def handled_def is_word_def ConvNet_init_def
      make_layer_def unpack_def new_def refuses_negative_features_def)

lemma foldl_Inl:
  "foldl (\<lambda>r l. case r of Inl e \<Rightarrow> Inl e | Inr y \<Rightarrow> app l y) (Inl e) ls = Inl e"
  by (induction ls) simp_all

text \<open>
  C2. The forward pass is the composition of the layers from left to right: it starts
  from \<open>x\<close> and hands the output of each layer to the next, in the order of the list
  (which is the order in which \<open>__init__\<close> appended them); an exception of a layer is
  the result of the pass.
\<close>

theorem forward_is_sequential_composition:
  "forward app layers x =
     foldl (\<lambda>r l. case r of Inl e \<Rightarrow> Inl e | Inr y \<Rightarrow> app l y) (Inr x) layers"
proof (induction layers arbitrary: x)
  case Nil
  then show ?case by simp
next
  case (Cons l ls)
  show ?case
  proof (cases "app l x")
    case (Inl e)
    then show ?thesis by (simp add: foldl_Inl)
  next
    case (Inr y)
    then show ?thesis by (simp add: Cons.IH)
  qed
qed

text \<open>
  C3, as the code has it. Besides the explicit \<open>raise\<close>, unpacking a tuple of the wrong
  length raises \<open>ValueError\<close> too, and unpacking \<open>None\<close> or a refusal of the framework
  ends the loop before a later key is looked at. On architectures whose entries all have
  parameters of the matching arity that the framework accepts, \<open>ConvNet.__init__\<close>
  raises \<open>ValueError\<close> if and only if some stripped key is not one of the eight handled
  strings; a key that strips to \<open>Sigmoid\<close> is such a key, since the code compares with
  \<open>Sigmod\<close>.
\<close>

theorem ConvNet_init_ValueError_iff:
  assumes "list_all arity_ok arch" and "list_all (accepted refuses) arch"
  shows "(is_ValueError (ConvNet_init refuses arch) \<longleftrightarrow>
            (\<exists>e \<in> set arch. re_sub_postfix (fst e) \<notin> set handled)) \<and>
         ((\<exists>e \<in> set arch. re_sub_postfix (fst e) = ''Sigmoid'') \<longrightarrow>
            is_ValueError (ConvNet_init refuses arch))"
proof -
  have iff: "is_ValueError (ConvNet_init refuses arch) \<longleftrightarrow>
            (\<exists>e \<in> set arch. re_sub_postfix (fst e) \<notin> set handled)"
    using init_loop_ValueError [OF assms, of "[]"] by (simp add: ConvNet_init_def)
  have "''Sigmoid'' \<notin> set handled" by (simp add: handled_def)
  then have "(\<exists>e \<in> set arch. re_sub_postfix (fst e) = ''Sigmoid'') \<longrightarrow>
            is_ValueError (ConvNet_init refuses arch)"
    unfolding iff by metis
  with iff show ?thesis by blast
qed

theorem ConvNet_init_ValueError_iff_witness:
  "list_all arity_ok [(''Conv2d_1'', Some [1, 6, 5, 1, 2]), (''Sigmoid_1'', None)] \<and>
   is_ValueError (ConvNet_init refuses_negative_features
     [(''Conv2d_1'', Some [1, 6, 5, 1, 2]), (''Sigmoid_1'', None)]) \<and>
   re_sub_postfix ''Sigmoid_1'' = ''Sigmoid''"
proof -
  have a: "list_all arity_ok [(''Conv2d_1'', Some [1, 6, 5, 1, 2]), (''Sigmoid_1'', None)]"
    by (simp add: arity_ok_def arity_def is_word_def)
  have f: "list_all (accepted refuses_negative_features)
      [(''Conv2d_1'', Some [1, 6, 5, 1, 2]), (''Sigmoid_1'', None)]"
    by (simp add: accepted_nonnegative)
  have s: "re_sub_postfix ''Sigmoid_1'' = ''Sigmoid''"
    by (simp add: is_word_def)
  show ?thesis
    using ConvNet_init_ValueError_iff [OF a f] a s by (simp add: handled_def)
qed

text \<open>
  C3 as stated fails in both directions. The entry \<open>Linear_5 : (512,)\<close>, which the
  notebook's CIFAR-10 architecture contains, has a handled key and still makes
  \<open>__init__\<close> raise \<open>ValueError\<close>, from the tuple assignment, before any constructor is
  called. Ahead of a key that strips to \<open>Sigmoid\<close>, the entry \<open>Linear_1 : None\<close> ends
  \<open>__init__\<close> with the \<open>TypeError\<close> of the tuple assignment, and the entry
  \<open>Linear_1 : (-1, 2)\<close>, whose tuple has the matching arity, with the \<open>RuntimeError\<close>
  of \<open>nn.Linear\<close>; \<open>ValueError\<close> is not raised.
\<close>

theorem ConvNet_init_ValueError_counterexample:
  "is_ValueError (ConvNet_init refuses_negative_features [(''Linear_5'', Some [512])]) \<and>
   re_sub_postfix ''Linear_5'' \<in> set handled \<and>
   re_sub_postfix ''Sigmoid_1'' \<notin> set handled \<and>
   ConvNet_init refuses_negative_features [(''Linear_1'', None), (''Sigmoid_1'', None)] =
     Inl (TypeError ''cannot unpack non-iterable NoneType object'') \<and>
   list_all arity_ok [(''Linear_1'', Some [-1, 2]), (''Sigmoid_1'', None)] \<and>
   ConvNet_init refuses_negative_features [(''Linear_1'', Some [-1, 2]), (''Sigmoid_1'', None)] =
     Inl (RuntimeError ''Trying to create tensor with negative dimension'')"
  by (simp add: arity_ok_def arity_def handled_def is_word_def ConvNet_init_def
      make_layer_def unpack_def new_def refuses_negative_features_def)

text \<open>
  C10. From an empty architecture \<open>__init__\<close> builds the empty list of layers, and the
  forward pass over it returns its input.
\<close>

theorem empty_architecture_is_identity:
  "ConvNet_init refuses [] = Inr [] \<and> forward app [] x = Inr x"
  by (simp add: ConvNet_init_def)

section \<open>Properties of the Flatten layer\<close>

text \<open>
  C9, as the code has it. On a tensor of at least one dimension whose first size is not
  zero, \<open>Flatten.forward\<close> returns the tensor of shape \<open>(x.size(0), n)\<close>, \<open>n\<close> the
  product of the remaining sizes, with the same elements in the same order.
\<close>

theorem Flatten_forward_shape:
  assumes "shape x = d0 # rest" and "0 < d0"
  shows "Flatten_forward x = Inr (x\<lparr>shape := [d0, prod_list rest]\<rparr>)"
  using assms by (simp add: Flatten_forward_def view_rows_def numel_def)

theorem Flatten_forward_shape_witness:
  "Flatten_forward \<lparr>shape = [2, 3, 2], elems = [1, 2, 3, 4, 5, 6, 7, 8, 9, 10, 11, 12 :: int]\<rparr> =
     Inr \<lparr>shape = [2, 6], elems = [1, 2, 3, 4, 5, 6, 7, 8, 9, 10, 11, 12]\<rparr>"
  using Flatten_forward_shape
    [of "\<lparr>shape = [2, 3, 2], elems = [1, 2, 3, 4, 5, 6, 7, 8, 9, 10, 11, 12 :: int]\<rparr>" 2 "[3, 2]"]
  by simp

text \<open>
  C9 as stated fails on an empty batch: for a tensor of shape \<open>(0, 3)\<close> the view
  \<open>(0, -1)\<close> is ambiguous and \<open>Flatten.forward\<close> raises instead of returning a tensor of
  shape \<open>(0, 3)\<close>.
\<close>

theorem Flatten_forward_empty_batch_counterexample:
  "Flatten_forward \<lparr>shape = [0, 3], elems = [] :: int list\<rparr> =
     Inl (RuntimeError ''cannot reshape tensor of 0 elements into shape [0, -1]'')"
  by (simp add: Flatten_forward_def view_rows_def numel_def)

section \<open>Properties of evaluation\<close>

lemma eq_sum_hits:
  "length out = length truth \<Longrightarrow>
   eq_sum (map (\<lambda>row. int (argmax row)) out) truth = Inr (hits out truth)"
proof -
  assume len: "length out = length truth"
  have "filter (\<lambda>(a, b). a = b) (zip (map (\<lambda>row. int (argmax row)) out) truth) =
        map (\<lambda>(row, label). (int (argmax row), label)) (filter (\<lambda>(row, label). int (argmax row) = label) (zip out truth))"
    using len by (induction out truth rule: list_induct2) auto
  then show ?thesis using len by (simp add: eq_sum_def hits_def)
qed

lemma hits_append:
  "length o1 = length t1 \<Longrightarrow> hits (o1 @ o2) (t1 @ t2) = hits o1 t1 + hits o2 t2"
  by (simp add: hits_def)

lemma evaluate_loop_counts:
  "forward_passes (model False) m (map fst test_data) = Inr (outputs, m') \<Longrightarrow>
   list_all2 scores_for outputs (map snd test_data) \<Longrightarrow>
   evaluate_loop model test_data m correct total' =
     Inr (correct + hits (concat outputs) (concat (map snd test_data)),
          total' + length (concat (map snd test_data)), m')"
proof (induction test_data arbitrary: m outputs correct total')
  case Nil
  then show ?case by (simp add: hits_def)
next
  case (Cons batch test_data)
  obtain images truth where b: "batch = (images, truth)" by (cases batch)
  from Cons.prems(1) obtain out m1 outs
    where c: "model False m images = Inr (out, m1)"
      and r: "forward_passes (model False) m1 (map fst test_data) = Inr (outs, m')"
      and o: "outputs = out # outs"
    by (auto simp: b split: sum.splits prod.splits)
  from Cons.prems(2) have sc: "scores_for out truth"
    and rows: "list_all2 scores_for outs (map snd test_data)"
    by (simp_all add: o b)
  from sc have len: "length out = length truth" and ne: "[] \<notin> set out"
    by (simp_all add: scores_for_def)
  have p: "torch_max_dim1 out = Inr (map (\<lambda>row. int (argmax row)) out)"
    using ne by (simp add: torch_max_dim1_def)
  show ?case
    using Cons.IH [OF r rows, of "correct + hits out truth" "total' + length truth"]
    by (simp add: b c o p eq_sum_hits [OF len] hits_append [OF len])
qed

lemma forward_passes_keep:
  "\<forall>p x out p'. call p x = Inr (out, p') \<longrightarrow> p' = p \<Longrightarrow>
   forward_passes call m xs = Inr (outputs, m') \<Longrightarrow> m' = m"
proof (induction xs arbitrary: outputs)
  case Nil
  then show ?case by simp
next
  case (Cons x xs)
  from Cons.prems(2) obtain out m1 outs
    where c: "call m x = Inr (out, m1)"
      and r: "forward_passes call m1 xs = Inr (outs, m')"
    by (auto split: sum.splits prod.splits)
  from Cons.prems(1) c have "m1 = m" by blast
  with Cons.IH [OF Cons.prems(1), of outs] r show ?case by simp
qed

text \<open>
  C8, as the code has it. Let the forward passes of the network on the batches, made
  one after the other with gradients disabled, return for every batch one non-empty row
  of scores for each label, and let the batches hold at least one sample together. Then
  \<open>evaluate\<close> reports the number of samples and 100 times the number of samples whose
  predicted class is their label, divided by the number of samples. It calls the network
  with gradients disabled only, and it leaves the parameters as these forward passes
  leave them: unchanged when a forward pass of the network does not change them.
\<close>

theorem evaluate_accuracy:
  assumes "forward_passes (model False) m (map fst test_data) = Inr (outputs, m')"
    and "list_all2 scores_for outputs (map snd test_data)"
    and "concat (map snd test_data) \<noteq> []"
  shows "evaluate model m test_data =
           Inr (length (concat (map snd test_data)),
                of_nat (100 * hits (concat outputs) (concat (map snd test_data))) /
                  of_nat (length (concat (map snd test_data))),
                m') \<and>
         evaluate (\<lambda>grad. model False) m test_data = evaluate model m test_data \<and>
         ((\<forall>p x out p'. model False p x = Inr (out, p') \<longrightarrow> p' = p) \<longrightarrow> m' = m)"
proof (intro conjI impI)
  show "evaluate model m test_data =
           Inr (length (concat (map snd test_data)),
                of_nat (100 * hits (concat outputs) (concat (map snd test_data))) /
                  of_nat (length (concat (map snd test_data))),
                m')"
    using assms(3)
    by (simp add: evaluate_def evaluate_loop_counts [where model = model, OF assms(1) assms(2)])
  have "evaluate_loop (\<lambda>grad. model False) d p c t = evaluate_loop model d p c t" for d p c t
    by (induction d arbitrary: p c t) (auto split: sum.splits prod.splits)
  then show "evaluate (\<lambda>grad. model False) m test_data = evaluate model m test_data"
    by (simp add: evaluate_def)
  assume "\<forall>p x out p'. model False p x = Inr (out, p') \<longrightarrow> p' = p"
  from forward_passes_keep [OF this assms(1)] show "m' = m" .
qed

theorem evaluate_accuracy_witness:
  "evaluate scores_model 7 [([[1, 3, 2], [5, 0, 0]], [1, 2]), ([[0, 0, 9]], [2])] =
     Inr (3, 200 / 3, 7)"
proof -
  have c: "forward_passes (scores_model False) 7
      (map fst [([[1, 3, 2], [5, 0, 0]], [1, 2 :: int]), ([[0, 0, 9]], [2])]) =
      Inr ([[[1, 3, 2], [5, 0, 0]], [[0, 0, 9]]], 7)"
    by (simp add: scores_model_def)
  have r: "list_all2 scores_for [[[1, 3, 2], [5, 0, 0 :: int]], [[0, 0, 9]]]
      (map snd [([[1, 3, 2], [5, 0, 0 :: int]], [1, 2 :: int]), ([[0, 0, 9]], [2])])"
    by (simp add: scores_for_def)
  from evaluate_accuracy [where model = scores_model, OF c r] show ?thesis
    by (simp add: hits_def argmax_def)
qed

text \<open>
  C8 as stated fails for some models and some data sets, in four ways. On a data set
  without batches \<open>total\<close> stays zero and the division in the last line raises
  \<open>ZeroDivisionError\<close>, so no accuracy is reported. A network whose forward pass changes
  its parameters has other parameters after \<open>evaluate\<close>, also with gradients disabled.
  A network that returns one row of scores for a batch of three labels has its one
  prediction compared with every label: \<open>evaluate\<close> counts two samples as right and
  reports \<open>200 / 3\<close>, while at most the one sample that has a prediction can be right.
  When a row of scores is empty, or the forward pass raises, \<open>evaluate\<close> raises.
\<close>

theorem evaluate_accuracy_counterexample:
  "evaluate scores_model 0 [] = Inl (ZeroDivisionError ''division by zero'') \<and>
   evaluate counting_model 0 [([[0, 1]], [1]), ([[3, 2]], [0])] = Inr (2, 100, 2) \<and>
   evaluate scores_model 0 [([[0, 0, 9]], [2, 2, 0])] = Inr (3, 200 / 3, 0) \<and>
   hits [[0, 0, 9 :: int]] [2, 2, 0] = 1 \<and>
   isl (evaluate scores_model 0 [([[]], [0])]) \<and>
   evaluate raising_model 0 [([[0, 1]], [1])] = Inl (RuntimeError ''size mismatch'')"
  by (simp add: evaluate_def scores_model_def counting_model_def raising_model_def
      torch_max_dim1_def eq_sum_def argmax_def hits_def)

section \<open>Properties of sorting, gathering and packing\<close>

text \<open>A list of indices that sorts to \<open>[0..<n]\<close> is a permutation of them.\<close>

lemma perm_upt_mset: "sort idx = [0..<n] \<Longrightarrow> mset idx = mset [0..<n]"
  by (metis mset_sort)

lemma perm_upt_props:
  assumes "sort idx = [0..<n]"
  shows "length idx = n" and "set idx = {0..<n}" and "distinct idx"
proof -
  have m: "mset idx = mset [0..<n]" using assms by (rule perm_upt_mset)
  show "length idx = n" using mset_eq_length [OF m] by simp
  show "set idx = {0..<n}" using mset_eq_setD [OF m] by simp
  show "distinct idx" using mset_eq_imp_distinct_iff [OF m] by simp
qed

lemma mset_map_nth_perm:
  assumes "sort idx = [0..<length xs]"
  shows "mset (map (\<lambda>i. xs ! i) idx) = mset xs"
proof -
  have "mset (map (\<lambda>i. xs ! i) idx) = image_mset (\<lambda>i. xs ! i) (mset idx)" by simp
  also have "\<dots> = image_mset (\<lambda>i. xs ! i) (mset [0..<length xs])"
    using perm_upt_mset [OF assms] by simp
  also have "\<dots> = mset (map (\<lambda>i. xs ! i) [0..<length xs])" by simp
  also have "\<dots> = mset xs" by (simp add: map_nth)
  finally show ?thesis .
qed

lemma argsort_inverse:
  assumes p: "sort p = [0..<n]" and s: "torch_sort_result False p vals q"
  shows "map (\<lambda>j. p ! j) q = [0..<n]" and "sort q = [0..<n]"
proof -
  have lp: "length p = n" using perm_upt_props(1) [OF p] .
  from s have q: "sort q = [0..<length p]"
    by (simp add: torch_sort_result_def)
  from s have v: "vals = map (\<lambda>i. p ! i) q"
    by (simp add: torch_sort_result_def)
  from s have sv: "sorted vals"
    by (auto simp: torch_sort_result_def)
  show "sort q = [0..<n]" using q lp by simp
  have "mset vals = mset p" unfolding v using q by (rule mset_map_nth_perm)
  also have "\<dots> = mset [0..<n]" using p by (rule perm_upt_mset)
  finally have "mset vals = mset [0..<n]" .
  from properties_for_sort [OF this sv] have "vals = [0..<n]" by simp
  then show "map (\<lambda>j. p ! j) q = [0..<n]" using v by simp
qed

lemma gather1_repeat:
  assumes "n = length (steps inp)" and "list_all (\<lambda>j. j < width inp) idx"
  shows "gather1 inp (repeat_rows n idx) =
     Inr \<lparr>width = length idx, steps = map (\<lambda>row. map (\<lambda>j. row ! j) idx) (steps inp)\<rparr>"
proof -
  have "list_all (list_all (\<lambda>j. j < width inp)) (replicate n idx)"
    using assms(2) by (simp add: list_all_iff)
  moreover have "map2 (\<lambda>row irow. map (\<lambda>j. row ! j) irow) (steps inp) (replicate n idx) =
      map (\<lambda>row. map (\<lambda>j. row ! j) idx) (steps inp)"
    using assms(1) by (simp add: zip_replicate2)
  ultimately show ?thesis
    using assms(1) by (simp add: gather1_def repeat_rows_def)
qed

text \<open>
  C5. For a tensor of shape \<open>(T, B)\<close> and a permutation \<open>sort_idx\<close> of its batch
  indices: gathering the columns by \<open>sort_idx\<close>, repeated for each of the \<open>T\<close> steps,
  and gathering the result by \<open>orig_idx\<close>, whatever indices the sort of \<open>sort_idx\<close>
  returns, gives the tensor back. (In the notebook the tensor gathered back has been
  packed and unpacked in between.)
\<close>

theorem gather_argsort_restores:
  assumes wf: "list_all (\<lambda>row. length row = width inp) (steps inp)"
    and p: "sort sort_idx = [0..<width inp]"
    and s: "torch_sort_result False sort_idx vals orig_idx"
  shows "\<exists>input_sorted.
           gather1 inp (repeat_rows (length (steps inp)) sort_idx) = Inr input_sorted \<and>
           gather1 input_sorted (repeat_rows (length (steps inp)) orig_idx) = Inr inp"
proof -
  let ?B = "width inp" and ?T = "length (steps inp)"
  let ?sorted = "\<lparr>width = length sort_idx, steps = map (\<lambda>row. map (\<lambda>j. row ! j) sort_idx) (steps inp)\<rparr>"
  note pp = perm_upt_props [OF p]
  note inv = argsort_inverse [OF p s]
  note qq = perm_upt_props [OF inv(2)]
  have "list_all (\<lambda>j. j < ?B) sort_idx" using pp(2) by (simp add: list_all_iff)
  from gather1_repeat [OF refl this]
  have g1: "gather1 inp (repeat_rows ?T sort_idx) = Inr ?sorted" .
  have "list_all (\<lambda>j. j < width ?sorted) orig_idx" using qq(2) pp(1) by (simp add: list_all_iff)
  moreover have "?T = length (steps ?sorted)" by simp
  ultimately have g2: "gather1 ?sorted (repeat_rows ?T orig_idx) =
     Inr \<lparr>width = length orig_idx, steps = map (\<lambda>row. map (\<lambda>j. row ! j) orig_idx) (steps ?sorted)\<rparr>"
    by (rule gather1_repeat [rotated])
  have row: "map (\<lambda>j. map (\<lambda>j. row ! j) sort_idx ! j) orig_idx = row"
    if "row \<in> set (steps inp)" for row
  proof -
    have len: "length row = ?B" using wf that by (simp add: list_all_iff)
    have "map (\<lambda>j. map (\<lambda>j. row ! j) sort_idx ! j) orig_idx = map (\<lambda>j. row ! (sort_idx ! j)) orig_idx"
      using qq(2) pp(1) by (intro map_cong refl) simp
    also have "\<dots> = map (\<lambda>i. row ! i) (map (\<lambda>j. sort_idx ! j) orig_idx)" by (simp add: comp_def)
    also have "\<dots> = map (\<lambda>i. row ! i) [0..<?B]" using inv(1) by simp
    also have "\<dots> = row" using len map_nth [of row] by simp
    finally show ?thesis .
  qed
  have "map (\<lambda>row. map (\<lambda>j. row ! j) orig_idx) (steps ?sorted) = steps inp"
    using row by (simp add: comp_def map_idI)
  then have "\<lparr>width = length orig_idx, steps = map (\<lambda>row. map (\<lambda>j. row ! j) orig_idx) (steps ?sorted)\<rparr> = inp"
    using qq(1) by simp
  with g1 g2 show ?thesis by simp
qed

theorem gather_argsort_restores_witness:
  "gather1 notebook_input_orig (repeat_rows 5 [1, 4, 0, 3, 2]) = Inr notebook_input_sorted \<and>
   gather1 notebook_input_sorted (repeat_rows 5 [2, 0, 4, 3, 1]) = Inr notebook_input_orig"
proof -
  have wf: "list_all (\<lambda>row. length row = width notebook_input_orig) (steps notebook_input_orig)"
    by (simp add: notebook_input_orig_def)
  have p: "sort [1, 4, 0, 3, 2] = [0..<width notebook_input_orig]"
    by (simp add: notebook_input_orig_def upt_conv_Cons)
  have s: "torch_sort_result False [1, 4, 0, 3, 2 :: nat] [0, 1, 2, 3, 4] [2, 0, 4, 3, 1]"
    by (simp add: torch_sort_result_def upt_conv_Cons)
  have n: "length (steps notebook_input_orig) = 5" by (simp add: notebook_input_orig_def)
  have g: "gather1 notebook_input_orig (repeat_rows 5 [1, 4, 0, 3, 2]) = Inr notebook_input_sorted"
    by (simp add: gather1_def repeat_rows_def notebook_input_orig_def notebook_input_sorted_def numeral_eq_Suc)
  from gather_argsort_restores [OF wf p s] show ?thesis
    unfolding n g by simp
qed

lemma max_list_ge: "x \<in> set xs \<Longrightarrow> x \<le> max_list xs"
  unfolding max_list_def by (induction xs) auto

lemma max_list_in: "xs \<noteq> [] \<Longrightarrow> max_list xs \<in> set xs"
  unfolding max_list_def
proof (induction xs)
  case Nil
  then show ?case by simp
next
  case (Cons x xs)
  then show ?case by (cases "xs = []") (auto simp: max_def)
qed

lemma max_list_set_cong:
  assumes "set xs = set ys"
  shows "max_list xs = max_list ys"
proof (cases "xs = []")
  case True
  then show ?thesis using assms by simp
next
  case False
  then have "ys \<noteq> []" using assms by auto
  from max_list_in [OF False] max_list_in [OF this] assms
  have "max_list xs \<le> max_list ys" and "max_list ys \<le> max_list xs"
    by (auto intro: max_list_ge)
  then show ?thesis by simp
qed

lemma hd_sorted_rev_max:
  assumes "sorted (rev vs)" and "vs \<noteq> []"
  shows "hd vs = max_list vs"
proof -
  obtain v rest where vs: "vs = v # rest" using assms(2) by (cases vs) auto
  have "\<forall>x \<in> set vs. x \<le> v"
    using assms(1) by (auto simp: vs sorted_append)
  moreover have "max_list vs \<in> set vs" using assms(2) by (rule max_list_in)
  ultimately have "max_list vs \<le> v" by blast
  moreover have "v \<le> max_list vs" by (rule max_list_ge) (simp add: vs)
  ultimately show ?thesis by (simp add: vs)
qed

lemma pad_sequence_reorder:
  assumes ne: "seqs \<noteq> []" and p: "sort idx = [0..<length seqs]"
    and T: "T = max_list (map length seqs)"
  shows "\<exists>input_orig. pad_sequence seqs = Inr input_orig \<and>
           gather1 input_orig (repeat_rows T idx) = pad_sequence (map (\<lambda>i. seqs ! i) idx)"
proof -
  let ?n = "length seqs"
  let ?orig = "\<lparr>width = ?n,
      steps = map (\<lambda>t. map (\<lambda>s. if t < length s then s ! t else 0) seqs) [0..<T]\<rparr>"
  note pp = perm_upt_props [OF p]
  have po: "pad_sequence seqs = Inr ?orig" using ne by (simp add: pad_sequence_def T)
  have "list_all (\<lambda>j. j < width ?orig) idx" using pp(2) by (simp add: list_all_iff)
  moreover have "T = length (steps ?orig)" by simp
  ultimately have g: "gather1 ?orig (repeat_rows T idx) =
      Inr \<lparr>width = length idx, steps = map (\<lambda>row. map (\<lambda>j. row ! j) idx) (steps ?orig)\<rparr>"
    by (rule gather1_repeat [rotated])
  have row: "map (\<lambda>j. map (\<lambda>s. if t < length s then s ! t else 0) seqs ! j) idx =
      map (\<lambda>s. if t < length s then s ! t else 0) (map (\<lambda>i. seqs ! i) idx)" for t
    using pp(2) by (simp add: comp_def)
  have "set (map length (map (\<lambda>i. seqs ! i) idx)) = set (map length seqs)"
    using mset_map_nth_perm [OF p] by (metis mset_eq_setD mset_map)
  then have Tm: "max_list (map length (map (\<lambda>i. seqs ! i) idx)) = T"
    unfolding T by (rule max_list_set_cong)
  have "idx \<noteq> []" using pp(1) ne by auto
  then have "pad_sequence (map (\<lambda>i. seqs ! i) idx) =
      Inr \<lparr>width = length idx,
        steps = map (\<lambda>t. map (\<lambda>s. if t < length s then s ! t else 0) (map (\<lambda>i. seqs ! i) idx))
          [0..<T]\<rparr>"
    unfolding pad_sequence_def Tm by simp
  also have "\<dots> = Inr \<lparr>width = length idx, steps = map (\<lambda>row. map (\<lambda>j. row ! j) idx) (steps ?orig)\<rparr>"
    using row by (simp add: comp_def)
  finally show ?thesis using po g by simp
qed

text \<open>Whatever order the sort gives to equal lengths.\<close>

lemma pack_gathered_reorder:
  assumes ne: "batch \<noteq> []"
    and s: "torch_sort_result True (map (\<lambda>b. length (fst b)) batch) sorted_lengths sort_idx"
  shows "pack_gathered batch sorted_lengths sort_idx =
     (case pad_sequence (map (\<lambda>i. fst (batch ! i)) sort_idx) of
        Inl e \<Rightarrow> Inl e
      | Inr padded \<Rightarrow>
          pack_padded_sequence padded (map length (map (\<lambda>i. fst (batch ! i)) sort_idx)))"
proof -
  let ?seqs = "map fst batch"
  let ?ls = "map (\<lambda>b. length (fst b)) batch"
  from s have p: "sort sort_idx = [0..<length ?seqs]"
    by (simp add: torch_sort_result_def)
  from s have v: "sorted_lengths = map (\<lambda>i. ?ls ! i) sort_idx"
    by (simp add: torch_sort_result_def)
  from s have sv: "sorted (rev sorted_lengths)"
    by (auto simp: torch_sort_result_def)
  note pp = perm_upt_props [OF p]
  have vne: "sorted_lengths \<noteq> []" using v pp(1) ne by auto
  then obtain max_length rest where sl: "sorted_lengths = max_length # rest"
    by (cases sorted_lengths) auto
  have "set sorted_lengths = set ?ls"
    unfolding v using mset_map_nth_perm [of sort_idx ?ls] p by (metis length_map mset_eq_setD)
  then have "max_list sorted_lengths = max_list ?ls" by (rule max_list_set_cong)
  with hd_sorted_rev_max [OF sv vne] have T: "max_length = max_list (map length ?seqs)"
    by (simp add: sl comp_def)
  have sne: "?seqs \<noteq> []" using ne by simp
  from pad_sequence_reorder [OF sne p T] obtain input_orig
    where po: "pad_sequence ?seqs = Inr input_orig"
      and g: "gather1 input_orig (repeat_rows max_length sort_idx) =
        pad_sequence (map (\<lambda>i. ?seqs ! i) sort_idx)"
    by blast
  have m1: "map (\<lambda>i. ?seqs ! i) sort_idx = map (\<lambda>i. fst (batch ! i)) sort_idx"
    using pp(2) by (intro map_cong refl) simp
  have m2: "sorted_lengths = map length (map (\<lambda>i. fst (batch ! i)) sort_idx)"
    unfolding v using pp(2) by (simp add: comp_def)
  have "pack_gathered batch sorted_lengths sort_idx =
      (case gather1 input_orig (repeat_rows max_length sort_idx) of
         Inl e \<Rightarrow> Inl e
       | Inr input_sorted \<Rightarrow> pack_padded_sequence input_sorted sorted_lengths)"
    unfolding pack_gathered_def sl using ne po by (simp add: zip_star_def)
  then show ?thesis
    unfolding g m1 m2 [symmetric] .
qed

lemma sorted_rev_imp_sorted_neg:
  "sorted (rev vs) \<Longrightarrow> sorted (map (\<lambda>v. - int v) vs)"
  by (induction vs) (auto simp: sorted_append)

lemma stable_argsort_is_sort_key:
  fixes f :: "'a \<Rightarrow> 'k::linorder"
  assumes p: "sort idx = [0..<length xs]"
    and srt: "sorted (map (\<lambda>i. f (xs ! i)) idx)"
    and st: "sorted_wrt (\<lambda>i j. f (xs ! i) = f (xs ! j) \<longrightarrow> i < j) idx"
  shows "map (\<lambda>i. xs ! i) idx = sort_key f xs"
proof (rule properties_for_sort_key [symmetric])
  note pp = perm_upt_props [OF p]
  show "mset (map (\<lambda>i. xs ! i) idx) = mset xs" using p by (rule mset_map_nth_perm)
  show "sorted (map f (map (\<lambda>i. xs ! i) idx))" using srt by (simp add: comp_def)
  fix k
  assume "k \<in> set (map (\<lambda>i. xs ! i) idx)"
  let ?Q = "\<lambda>i. f k = f (xs ! i)"
  have "sorted_wrt (\<lambda>i j. f (xs ! i) = f (xs ! j) \<longrightarrow> i < j) (filter ?Q idx)"
    using st by (rule sorted_wrt_filter)
  then have "sorted_wrt (<) (filter ?Q idx)"
    by (rule sorted_wrt_mono_rel [rotated]) auto
  then have s1: "sorted (filter ?Q idx)" and d1: "distinct (filter ?Q idx)"
    by (simp_all add: strict_sorted_iff)
  have s2: "sorted (filter ?Q [0..<length xs])"
    by (rule sorted_wrt_filter) simp
  have d2: "distinct (filter ?Q [0..<length xs])"
    by simp
  have "set (filter ?Q idx) = set (filter ?Q [0..<length xs])" using pp(2) by simp
  from sorted_distinct_set_unique [OF s1 d1 s2 d2 this]
  have eq: "filter ?Q idx = filter ?Q [0..<length xs]" .
  have "filter (\<lambda>x. f k = f x) (map (\<lambda>i. xs ! i) idx) = map (\<lambda>i. xs ! i) (filter ?Q idx)"
    by (simp add: filter_map comp_def)
  also have "\<dots> = map (\<lambda>i. xs ! i) (filter ?Q [0..<length xs])" by (simp only: eq)
  also have "\<dots> = filter (\<lambda>x. f k = f x) (map (\<lambda>i. xs ! i) [0..<length xs])"
    by (simp add: filter_map comp_def)
  also have "\<dots> = filter (\<lambda>x. f k = f x) xs" by (simp add: map_nth)
  finally show "filter (\<lambda>x. f k = f x) (map (\<lambda>i. xs ! i) idx) = filter (\<lambda>x. f k = f x) xs" .
qed

text \<open>
  C6, as the code has it. When the descending sort of the lengths leaves sequences of
  equal length in their order, as Python's \<open>sorted\<close> does with the pairs, both ways give
  the same result: the same packed sequence, hence the same tensor after unpacking, or
  the same exception.
\<close>

theorem presorted_equals_gathered:
  assumes s: "torch_sort_result True (map (\<lambda>b. length (fst b)) batch) sorted_lengths sort_idx"
    and st: "sorted_wrt (\<lambda>i j. length (fst (batch ! i)) = length (fst (batch ! j)) \<longrightarrow> i < j)
               sort_idx"
  shows "pack_gathered batch sorted_lengths sort_idx = pack_presorted batch \<and>
         (case pack_gathered batch sorted_lengths sort_idx of
            Inl e \<Rightarrow> Inl e | Inr p \<Rightarrow> pad_packed_sequence p) =
         (case pack_presorted batch of Inl e \<Rightarrow> Inl e | Inr p \<Rightarrow> pad_packed_sequence p)"
proof -
  have main: "pack_gathered batch sorted_lengths sort_idx = pack_presorted batch"
  proof (cases "batch = []")
    case True
    then show ?thesis
      by (simp add: pack_gathered_def pack_presorted_def sorted_batch_def zip_star_def)
  next
    case False
    let ?f = "\<lambda>b :: 'a list \<times> 'b. - int (length (fst b))"
    from s have p: "sort sort_idx = [0..<length batch]"
      by (simp add: torch_sort_result_def)
    from s have v: "sorted_lengths = map (\<lambda>i. map (\<lambda>b. length (fst b)) batch ! i) sort_idx"
      by (simp add: torch_sort_result_def)
    from s have sv: "sorted (rev sorted_lengths)"
      by (auto simp: torch_sort_result_def)
    note pp = perm_upt_props [OF p]
    have "map (\<lambda>i. ?f (batch ! i)) sort_idx = map (\<lambda>v. - int v) sorted_lengths"
      unfolding v using pp(2) by (simp add: comp_def)
    with sorted_rev_imp_sorted_neg [OF sv]
    have srt: "sorted (map (\<lambda>i. ?f (batch ! i)) sort_idx)" by simp
    have st': "sorted_wrt (\<lambda>i j. ?f (batch ! i) = ?f (batch ! j) \<longrightarrow> i < j) sort_idx"
      using st by simp
    from stable_argsort_is_sort_key [OF p srt st']
    have sb: "sorted_batch batch = map (\<lambda>i. batch ! i) sort_idx"
      by (simp add: sorted_batch_def)
    have ne: "map (\<lambda>i. batch ! i) sort_idx \<noteq> []" using pp(1) False by auto
    show ?thesis
      unfolding pack_gathered_reorder [OF False s]
      using ne by (simp add: pack_presorted_def sb zip_star_def comp_def)
  qed
  then show ?thesis by simp
qed

theorem presorted_equals_gathered_witness:
  "pack_gathered notebook_batch [5, 4, 3, 3, 2] [1, 4, 0, 3, 2] = pack_presorted notebook_batch \<and>
   pack_presorted notebook_batch =
     Inr \<lparr>data = [2, 5, 1, 4, 3, 2, 5, 1, 4, 3, 2, 5, 1, 4, 2, 5, 2], batch_sizes = [5, 5, 4, 2, 1]\<rparr>"
proof -
  have s: "torch_sort_result True (map (\<lambda>b. length (fst b)) notebook_batch) [5, 4, 3, 3, 2] [1, 4, 0, 3, 2]"
    by (simp add: torch_sort_result_def notebook_batch_def upt_conv_Cons)
  have st: "sorted_wrt (\<lambda>i j. length (fst (notebook_batch ! i)) = length (fst (notebook_batch ! j)) \<longrightarrow> i < j)
      [1, 4, 0, 3, 2]"
    by (simp add: notebook_batch_def)
  have v: "pack_presorted notebook_batch =
     Inr \<lparr>data = [2, 5, 1, 4, 3, 2, 5, 1, 4, 3, 2, 5, 1, 4, 2, 5, 2], batch_sizes = [5, 5, 4, 2, 1]\<rparr>"
    by (simp add: pack_presorted_def sorted_batch_def notebook_batch_def zip_star_def pad_sequence_def
        max_list_def pack_padded_sequence_def batch_size_at_def upt_conv_Cons)
  from presorted_equals_gathered [OF s st] v show ?thesis by simp
qed

text \<open>Sequences of length one: padding, packing and the two ways.\<close>

lemma max_list_ones: "max_list (map (\<lambda>x. Suc 0) xs) = (if xs = [] then 0 else Suc 0)"
  by (induction xs) (simp_all add: max_list_def)

lemma pad_sequence_singletons:
  "xs \<noteq> [] \<Longrightarrow> pad_sequence (map (\<lambda>x. [x]) xs) = Inr \<lparr>width = length xs, steps = [xs]\<rparr>"
  by (simp add: pad_sequence_def max_list_ones comp_def)

lemma pack_singletons:
  "xs \<noteq> [] \<Longrightarrow>
   pack_padded_sequence \<lparr>width = length xs, steps = [xs]\<rparr> (map length (map (\<lambda>x. [x]) xs)) =
     Inr \<lparr>data = xs, batch_sizes = [length xs]\<rparr>"
  by (simp add: pack_padded_sequence_def comp_def map_replicate_const batch_size_at_def)

text \<open>A batch of sequences of length one, on both ways.\<close>

lemma pack_presorted_singletons:
  assumes "xs \<noteq> []"
  shows "pack_presorted (map (\<lambda>x. ([x], [x])) xs) = Inr \<lparr>data = xs, batch_sizes = [length xs]\<rparr>"
proof -
  have "sorted (map (\<lambda>b. - int (length (fst b))) (map (\<lambda>x. ([x], [x])) xs))"
    by (simp add: comp_def map_replicate_const)
  then have "sorted_batch (map (\<lambda>x. ([x], [x])) xs) = map (\<lambda>x. ([x], [x])) xs"
    unfolding sorted_batch_def by (rule sort_key_id_if_sorted)
  then show ?thesis
    using assms pack_singletons [OF assms]
    by (simp add: pack_presorted_def zip_star_def comp_def pad_sequence_singletons)
qed

lemma pack_gathered_singletons:
  assumes ne: "xs \<noteq> []"
    and s: "torch_sort_result True (map (\<lambda>b. length (fst b)) (map (\<lambda>x. ([x], [x])) xs))
              sorted_lengths sort_idx"
  shows "pack_gathered (map (\<lambda>x. ([x], [x])) xs) sorted_lengths sort_idx =
           Inr \<lparr>data = map (\<lambda>i. xs ! i) sort_idx, batch_sizes = [length xs]\<rparr>"
    and "sorted_lengths = replicate (length xs) 1"
    and "sort sort_idx = [0..<length xs]"
proof -
  let ?batch = "map (\<lambda>x. ([x], [x])) xs"
  from s show p: "sort sort_idx = [0..<length xs]"
    by (simp add: torch_sort_result_def)
  note pp = perm_upt_props [OF p]
  from s have "sorted_lengths = map (\<lambda>i. map (\<lambda>b. length (fst b)) ?batch ! i) sort_idx"
    by (simp add: torch_sort_result_def)
  also have "\<dots> = map (\<lambda>i. 1) sort_idx"
    using pp(2) by (intro map_cong refl) simp
  finally show "sorted_lengths = replicate (length xs) 1"
    using pp(1) by (simp add: map_replicate_const)
  have bne: "?batch \<noteq> []" using ne by simp
  have m: "map (\<lambda>i. fst (?batch ! i)) sort_idx = map (\<lambda>x. [x]) (map (\<lambda>i. xs ! i) sort_idx)"
    using pp(2) by (simp add: comp_def)
  have gne: "map (\<lambda>i. xs ! i) sort_idx \<noteq> []" using pp(1) ne by auto
  show "pack_gathered ?batch sorted_lengths sort_idx =
           Inr \<lparr>data = map (\<lambda>i. xs ! i) sort_idx, batch_sizes = [length xs]\<rparr>"
    unfolding pack_gathered_reorder [OF bne s] m
      pad_sequence_singletons [OF gne, unfolded length_map pp(1)]
    by (simp only: sum.case pack_singletons [OF gne, unfolded length_map pp(1)])
qed

text \<open>
  With sequences that are told apart by their entries, the two ways agree only when the
  sort of the lengths returns the positions in their order.
\<close>

lemma singletons_agree_iff:
  assumes ne: "xs \<noteq> []" and d: "distinct xs"
  shows "(torch_sort_result True (map (\<lambda>b. length (fst b)) (map (\<lambda>x. ([x], [x])) xs))
            sorted_lengths sort_idx \<and>
          pack_gathered (map (\<lambda>x. ([x], [x])) xs) sorted_lengths sort_idx =
            pack_presorted (map (\<lambda>x. ([x], [x])) xs)) =
         (sorted_lengths = replicate (length xs) 1 \<and> sort_idx = [0..<length xs])"
proof
  assume a: "torch_sort_result True (map (\<lambda>b. length (fst b)) (map (\<lambda>x. ([x], [x])) xs))
            sorted_lengths sort_idx \<and>
          pack_gathered (map (\<lambda>x. ([x], [x])) xs) sorted_lengths sort_idx =
            pack_presorted (map (\<lambda>x. ([x], [x])) xs)"
  then have s: "torch_sort_result True (map (\<lambda>b. length (fst b)) (map (\<lambda>x. ([x], [x])) xs))
            sorted_lengths sort_idx" by (rule conjunct1)
  note g = pack_gathered_singletons [OF ne s]
  note pp = perm_upt_props [OF g(3)]
  from a have "map (\<lambda>i. xs ! i) sort_idx = xs"
    by (simp add: g(1) pack_presorted_singletons [OF ne])
  then have e: "xs ! (sort_idx ! j) = xs ! j" if "j < length xs" for j
    using that pp(1) by (metis nth_map)
  have "sort_idx = [0..<length xs]"
  proof (rule nth_equalityI)
    show "length sort_idx = length [0..<length xs]" using pp(1) by simp
    fix j
    assume "j < length sort_idx"
    then have j: "j < length xs" using pp(1) by simp
    then have "sort_idx ! j \<in> set sort_idx" using pp(1) by simp
    then have "sort_idx ! j < length xs" using pp(2) by simp
    with e [OF j] d j have "sort_idx ! j = j" by (simp add: nth_eq_iff_index_eq)
    then show "sort_idx ! j = [0..<length xs] ! j" using j by simp
  qed
  with g(2) show "sorted_lengths = replicate (length xs) 1 \<and> sort_idx = [0..<length xs]"
    by simp
next
  assume b: "sorted_lengths = replicate (length xs) 1 \<and> sort_idx = [0..<length xs]"
  have s: "torch_sort_result True (map (\<lambda>b. length (fst b)) (map (\<lambda>x. ([x], [x])) xs))
            sorted_lengths sort_idx"
    using b by (auto simp: torch_sort_result_def comp_def intro: nth_equalityI)
  have "map (\<lambda>i. xs ! i) [0..<length xs] = xs" by (rule map_nth)
  with pack_gathered_singletons(1) [OF ne s] b
  have "pack_gathered (map (\<lambda>x. ([x], [x])) xs) sorted_lengths sort_idx =
            pack_presorted (map (\<lambda>x. ([x], [x])) xs)"
    by (simp add: pack_presorted_singletons [OF ne])
  with s show "torch_sort_result True (map (\<lambda>b. length (fst b)) (map (\<lambda>x. ([x], [x])) xs))
            sorted_lengths sort_idx \<and>
          pack_gathered (map (\<lambda>x. ([x], [x])) xs) sorted_lengths sort_idx =
            pack_presorted (map (\<lambda>x. ([x], [x])) xs)" by simp
qed

lemma equal_lengths_batch_singletons:
  "equal_lengths_batch =
     map (\<lambda>x. ([x], [x])) [1, 2, 3, 4, 5, 6, 7, 8, 9, 10, 11, 12, 13, 14, 15, 16, 17]"
  by (simp add: equal_lengths_batch_def)

text \<open>
  C6 as stated fails on a batch of 17 sequences that are equally long. \<open>sorted\<close> keeps
  such pairs in their order, so the first way packs the entries 1 to 17 as they come
  (first part). \<^verbatim>\<open>lengths.sort(descending=True)\<close> is not a stable sort and does not
  return 17 equal lengths in their order; which order it returns is the framework's
  choice. Whatever it is, the second way packs the entries in that order, and the two
  ways agree only if it is the original order (last part). The order 8, 16, 15, \<open>\<dots>\<close>,
  9, 0, 7, \<open>\<dots>\<close>, 1 of the second and third part is an example, the one that an
  introsort leaves.
\<close>

theorem presorted_equals_gathered_counterexample:
  "pack_presorted equal_lengths_batch =
     Inr \<lparr>data = [1, 2, 3, 4, 5, 6, 7, 8, 9, 10, 11, 12, 13, 14, 15, 16, 17],
          batch_sizes = [17]\<rparr> \<and>
   torch_sort_result True (map (\<lambda>b. length (fst b)) equal_lengths_batch)
     [1, 1, 1, 1, 1, 1, 1, 1, 1, 1, 1, 1, 1, 1, 1, 1, 1]
     [8, 16, 15, 14, 13, 12, 11, 10, 9, 0, 7, 6, 5, 4, 3, 2, 1] \<and>
   pack_gathered equal_lengths_batch
     [1, 1, 1, 1, 1, 1, 1, 1, 1, 1, 1, 1, 1, 1, 1, 1, 1]
     [8, 16, 15, 14, 13, 12, 11, 10, 9, 0, 7, 6, 5, 4, 3, 2, 1] =
     Inr \<lparr>data = [9, 17, 16, 15, 14, 13, 12, 11, 10, 1, 8, 7, 6, 5, 4, 3, 2],
          batch_sizes = [17]\<rparr> \<and>
   (\<forall>sorted_lengths sort_idx.
      (torch_sort_result True (map (\<lambda>b. length (fst b)) equal_lengths_batch)
         sorted_lengths sort_idx \<and>
       pack_gathered equal_lengths_batch sorted_lengths sort_idx =
         pack_presorted equal_lengths_batch) =
      (sorted_lengths = [1, 1, 1, 1, 1, 1, 1, 1, 1, 1, 1, 1, 1, 1, 1, 1, 1] \<and>
       sort_idx = [0, 1, 2, 3, 4, 5, 6, 7, 8, 9, 10, 11, 12, 13, 14, 15, 16]))"
proof -
  let ?xs = "[1, 2, 3, 4, 5, 6, 7, 8, 9, 10, 11, 12, 13, 14, 15, 16, 17 :: int]"
  have ne: "?xs \<noteq> []" by simp
  have d: "distinct ?xs" by simp
  have n: "length ?xs = 17" by simp
  have r: "replicate 17 (1 :: nat) = [1, 1, 1, 1, 1, 1, 1, 1, 1, 1, 1, 1, 1, 1, 1, 1, 1]"
    by (simp add: numeral_eq_Suc)
  have u: "[0..<17] = [0, 1, 2, 3, 4, 5, 6, 7, 8, 9, 10, 11, 12, 13, 14, 15, 16]"
    by (simp add: upt_conv_Cons)
  have s: "torch_sort_result True (map (\<lambda>b. length (fst b)) equal_lengths_batch)
     [1, 1, 1, 1, 1, 1, 1, 1, 1, 1, 1, 1, 1, 1, 1, 1, 1]
     [8, 16, 15, 14, 13, 12, 11, 10, 9, 0, 7, 6, 5, 4, 3, 2, 1]"
    by (simp add: torch_sort_result_def equal_lengths_batch_def u)
  have p: "pack_presorted equal_lengths_batch =
     Inr \<lparr>data = ?xs, batch_sizes = [17]\<rparr>"
    unfolding equal_lengths_batch_singletons using pack_presorted_singletons [OF ne] by simp
  have g: "pack_gathered equal_lengths_batch
     [1, 1, 1, 1, 1, 1, 1, 1, 1, 1, 1, 1, 1, 1, 1, 1, 1]
     [8, 16, 15, 14, 13, 12, 11, 10, 9, 0, 7, 6, 5, 4, 3, 2, 1] =
     Inr \<lparr>data = [9, 17, 16, 15, 14, 13, 12, 11, 10, 1, 8, 7, 6, 5, 4, 3, 2],
          batch_sizes = [17]\<rparr>"
    using pack_gathered_singletons(1) [OF ne s [unfolded equal_lengths_batch_singletons]]
    unfolding equal_lengths_batch_singletons by simp
  have a: "(torch_sort_result True (map (\<lambda>b. length (fst b)) equal_lengths_batch)
         sorted_lengths sort_idx \<and>
       pack_gathered equal_lengths_batch sorted_lengths sort_idx =
         pack_presorted equal_lengths_batch) =
      (sorted_lengths = [1, 1, 1, 1, 1, 1, 1, 1, 1, 1, 1, 1, 1, 1, 1, 1, 1] \<and>
       sort_idx = [0, 1, 2, 3, 4, 5, 6, 7, 8, 9, 10, 11, 12, 13, 14, 15, 16])"
    for sorted_lengths sort_idx
    unfolding equal_lengths_batch_singletons singletons_agree_iff [OF ne d] n r u ..
  from p s g a show ?thesis by blast
qed

subsection \<open>Unpacking a packed batch\<close>

text \<open>
  For lengths in descending order, sequence \<open>j\<close> is among the first
  \<open>batch_sizes[t]\<close> exactly when it is longer than \<open>t\<close>.
\<close>

lemma batch_size_at_le: "batch_size_at ls t \<le> length ls"
  by (simp add: batch_size_at_def)

lemma batch_size_at_iff:
  "sorted (rev ls) \<Longrightarrow> j < length ls \<Longrightarrow> j < batch_size_at ls t \<longleftrightarrow> t < ls ! j"
proof (induction ls arbitrary: j)
  case Nil
  then show ?case by simp
next
  case (Cons l ls)
  from Cons.prems(1) have srt: "sorted (rev ls)" and le: "\<forall>x \<in> set ls. x \<le> l"
    by (auto simp: sorted_append)
  show ?case
  proof (cases "t < l")
    case True
    show ?thesis
    proof (cases j)
      case 0
      then show ?thesis using True by (simp add: batch_size_at_def)
    next
      case (Suc i)
      then have "i < length ls" using Cons.prems(2) by simp
      from Cons.IH [OF srt this] show ?thesis
        using True Suc by (simp add: batch_size_at_def)
    qed
  next
    case False
    then have "\<forall>x \<in> set ls. \<not> t < x" using le by auto
    then have "filter (\<lambda>x. t < x) ls = []" by (simp add: filter_empty_conv)
    then have z: "batch_size_at (l # ls) t = 0" using False by (simp add: batch_size_at_def)
    have "\<not> t < (l # ls) ! j"
    proof (cases j)
      case 0
      then show ?thesis using False by simp
    next
      case (Suc i)
      then have "ls ! i \<in> set ls" using Cons.prems(2) by simp
      then show ?thesis using \<open>\<forall>x \<in> set ls. \<not> t < x\<close> Suc by simp
    qed
    then show ?thesis using z by simp
  qed
qed

lemma unpack_steps_chunks:
  "unpack_steps B (concat cs) (map length cs) = map (\<lambda>c. c @ replicate (B - length c) 0) cs"
  by (induction cs) simp_all

lemma length_filter_less_upt: "n \<le> T \<Longrightarrow> length (filter (\<lambda>t. t < n) [0..<T]) = n"
proof -
  assume "n \<le> T"
  then have "[0..<T] = [0..<n] @ [n..<T]"
    using upt_add_eq_append [of 0 n "T - n"] by simp
  then have "filter (\<lambda>t. t < n) [0..<T] = filter (\<lambda>t. t < n) [0..<n] @ filter (\<lambda>t. t < n) [n..<T]"
    by simp
  also have "filter (\<lambda>t. t < n) [0..<n] = [0..<n]" by simp
  also have "filter (\<lambda>t. t < n) [n..<T] = []" by (simp add: filter_empty_conv)
  finally show ?thesis by simp
qed

text \<open>
  Unpacking what was packed from a padded batch gives the padded batch and the lengths
  back.
\<close>

lemma pad_packed_of_pack_padded:
  fixes seqs :: "'a::zero list list"
  assumes pad: "pad_sequence seqs = Inr padded"
    and pack: "pack_padded_sequence padded (map length seqs) = Inr p"
  shows "pad_packed_sequence p = Inr (padded, map length seqs)"
proof -
  let ?ls = "map length seqs"
  let ?T = "max_list ?ls"
  let ?B = "length seqs"
  let ?X = "\<lambda>t. map (\<lambda>s. if t < length s then s ! t else 0) seqs"
  let ?cs = "map (\<lambda>t. take (batch_size_at ?ls t) (?X t)) [0..<?T]"
  from pad have pd: "padded = \<lparr>width = ?B, steps = map ?X [0..<?T]\<rparr>"
    by (auto simp: pad_sequence_def split: if_splits)
  from pack have ne: "?ls \<noteq> []" and last: "last ?ls \<noteq> 0" and srt: "sorted (rev ?ls)"
    by (auto simp: pack_padded_sequence_def split: if_splits)
  have hd: "hd ?ls = ?T" using srt ne by (rule hd_sorted_rev_max)
  have pos: "0 < ?ls ! j" if "j < ?B" for j
  proof -
    have "last ?ls \<le> ?ls ! j"
      using sorted_rev_nth_mono [OF srt, of j "length ?ls - 1"] that ne
      by (simp add: last_conv_nth)
    then show ?thesis using last by simp
  qed
  have lc: "map length ?cs = map (batch_size_at ?ls) [0..<?T]"
    using batch_size_at_le [of ?ls] by (simp add: min_absorb1)
  have w: "width padded = length ?ls" and n: "length (steps padded) = ?T"
    by (simp_all add: pd)
  have d: "map (\<lambda>t. take (batch_size_at ?ls t) (steps padded ! t)) [0..<?T] = ?cs"
    by (rule map_cong [OF refl]) (simp add: pd cong: if_cong)
  from pack have pk: "p = \<lparr>data = concat ?cs, batch_sizes = map length ?cs\<rparr>"
    unfolding pack_padded_sequence_def w n hd lc using ne last srt by (simp add: d)
  have mb: "min ?B (batch_size_at ?ls t) = batch_size_at ?ls t" for t
    using batch_size_at_le [of ?ls t] by simp
  have Bpos: "0 < ?B" using ne by simp
  have "0 < ?ls ! 0" using pos [OF Bpos] .
  moreover have "?ls ! 0 \<le> ?T" using Bpos by (intro max_list_ge) simp
  ultimately have Tpos: "0 < ?T" by (rule less_le_trans)
  have b0: "batch_size_at ?ls 0 = ?B"
  proof -
    have "\<forall>l \<in> set ?ls. 0 < l" using pos by (auto simp: in_set_conv_nth)
    then show ?thesis by (simp add: batch_size_at_def)
  qed
  have bs: "batch_sizes p = ?B # map (batch_size_at ?ls) [Suc 0..<?T]"
    unfolding pk lc using Tpos b0 by (simp add: upt_conv_Cons)
  have row: "take (batch_size_at ?ls t) (?X t) @ replicate (?B - batch_size_at ?ls t) 0 = ?X t" for t
  proof (rule nth_equalityI)
    show "length (take (batch_size_at ?ls t) (?X t) @ replicate (?B - batch_size_at ?ls t) 0) =
        length (?X t)"
      using batch_size_at_le [of ?ls t] by simp
  next
    fix j
    assume "j < length (take (batch_size_at ?ls t) (?X t) @ replicate (?B - batch_size_at ?ls t) 0)"
    then have j: "j < ?B" using batch_size_at_le [of ?ls t] by simp
    have iff: "j < batch_size_at ?ls t \<longleftrightarrow> t < length (seqs ! j)"
      using batch_size_at_iff [OF srt, of j t] j by simp
    show "(take (batch_size_at ?ls t) (?X t) @ replicate (?B - batch_size_at ?ls t) 0) ! j = ?X t ! j"
    proof (cases "j < batch_size_at ?ls t")
      case True
      then show ?thesis using j by (simp add: nth_append)
    next
      case False
      then have "\<not> t < length (seqs ! j)" using iff by simp
      then show ?thesis using False j batch_size_at_le [of ?ls t] by (simp add: nth_append)
    qed
  qed
  have st: "unpack_steps ?B (data p) (batch_sizes p) = map ?X [0..<?T]"
  proof -
    have "unpack_steps ?B (data p) (batch_sizes p) =
        map (\<lambda>c. c @ replicate (?B - length c) 0) ?cs"
      unfolding pk by (simp only: packed.select_convs unpack_steps_chunks)
    also have "\<dots> = map (\<lambda>t. take (batch_size_at ?ls t) (?X t) @
        replicate (?B - batch_size_at ?ls t) 0) [0..<?T]"
      by (simp add: comp_def mb)
    also have "\<dots> = map ?X [0..<?T]" by (simp only: row)
    finally show ?thesis .
  qed
  have ln: "map (\<lambda>j. length (filter (\<lambda>b. j < b) (batch_sizes p))) [0..<?B] = ?ls"
  proof (rule nth_equalityI)
    show "length (map (\<lambda>j. length (filter (\<lambda>b. j < b) (batch_sizes p))) [0..<?B]) = length ?ls"
      by simp
  next
    fix j
    assume "j < length (map (\<lambda>j. length (filter (\<lambda>b. j < b) (batch_sizes p))) [0..<?B])"
    then have j: "j < ?B" by simp
    have iff: "j < batch_size_at ?ls t \<longleftrightarrow> t < length (seqs ! j)" for t
      using batch_size_at_iff [OF srt, of j t] j by simp
    have len: "length (seqs ! j) \<le> ?T" using j by (intro max_list_ge) simp
    have "batch_sizes p = map (batch_size_at ?ls) [0..<?T]"
      by (simp only: pk packed.select_convs lc)
    then have "length (filter (\<lambda>b. j < b) (batch_sizes p)) =
        length (filter (\<lambda>t. j < batch_size_at ?ls t) [0..<?T])"
      by (simp add: filter_map comp_def)
    also have "\<dots> = length (filter (\<lambda>t. t < length (seqs ! j)) [0..<?T])"
      by (simp only: iff)
    also have "\<dots> = length (seqs ! j)" using len by (rule length_filter_less_upt)
    finally show "map (\<lambda>j. length (filter (\<lambda>b. j < b) (batch_sizes p))) [0..<?B] ! j = ?ls ! j"
      using j by simp
  qed
  show ?thesis
    unfolding pad_packed_sequence_def bs list.case
    unfolding bs [symmetric] st ln pd ..
qed

text \<open>
  The first option of the notebook from end to end: pad, sort the lengths, gather, pack,
  unpack, gather by the indices of the sorted sort indices. The result is the padded
  batch the notebook started from.
\<close>

lemma restored_after_unpacking:
  fixes seqs :: "'a::zero list list"
  assumes pad: "pad_sequence seqs = Inr input_orig"
    and s: "torch_sort_result True (map length seqs) sorted_lengths sort_idx"
    and g: "gather1 input_orig (repeat_rows (hd sorted_lengths) sort_idx) = Inr input_sorted"
    and pk: "pack_padded_sequence input_sorted sorted_lengths = Inr input_packed"
    and up: "pad_packed_sequence input_packed = Inr (input_unpacked, lens)"
    and o: "torch_sort_result False sort_idx vals orig_idx"
  shows "gather1 input_unpacked (repeat_rows (hd sorted_lengths) orig_idx) = Inr input_orig"
proof -
  let ?ls = "map length seqs"
  let ?seqs' = "map (\<lambda>i. seqs ! i) sort_idx"
  from pad have ne: "seqs \<noteq> []" by (auto simp: pad_sequence_def split: if_splits)
  from s have p: "sort sort_idx = [0..<length seqs]"
    by (simp add: torch_sort_result_def)
  from s have v: "sorted_lengths = map (\<lambda>i. ?ls ! i) sort_idx"
    by (simp add: torch_sort_result_def)
  from s have sv: "sorted (rev sorted_lengths)"
    by (auto simp: torch_sort_result_def)
  note pp = perm_upt_props [OF p]
  have vne: "sorted_lengths \<noteq> []" using v pp(1) ne by auto
  have "set sorted_lengths = set ?ls"
    unfolding v using mset_map_nth_perm [of sort_idx ?ls] p by (metis length_map mset_eq_setD)
  then have "max_list sorted_lengths = max_list ?ls" by (rule max_list_set_cong)
  with hd_sorted_rev_max [OF sv vne] have T: "hd sorted_lengths = max_list ?ls" by simp
  from pad_sequence_reorder [OF ne p T] pad g
  have ps: "pad_sequence ?seqs' = Inr input_sorted" by simp
  have ls': "sorted_lengths = map length ?seqs'"
    unfolding v using pp(2) by (simp add: comp_def)
  from pad_packed_of_pack_padded [OF ps pk [unfolded ls']] up
  have un: "input_unpacked = input_sorted" by simp
  have p0: "sort sort_idx = [0..<length sort_idx]" using p pp(1) by simp
  from argsort_inverse [OF p0 o] have inv: "map (\<lambda>j. sort_idx ! j) orig_idx = [0..<length sort_idx]"
    and q: "sort orig_idx = [0..<length sort_idx]" .
  note qq = perm_upt_props [OF q]
  have ne': "?seqs' \<noteq> []" using pp(1) ne by auto
  have q': "sort orig_idx = [0..<length ?seqs']" using q by simp
  have T': "hd sorted_lengths = max_list (map length ?seqs')" using T ls' \<open>max_list sorted_lengths = max_list ?ls\<close> by simp
  from pad_sequence_reorder [OF ne' q' T'] ps
  have g2: "gather1 input_sorted (repeat_rows (hd sorted_lengths) orig_idx) =
      pad_sequence (map (\<lambda>i. ?seqs' ! i) orig_idx)" by simp
  have "map (\<lambda>i. ?seqs' ! i) orig_idx = map (\<lambda>j. seqs ! (sort_idx ! j)) orig_idx"
    using qq(2) by (intro map_cong refl) simp
  also have "\<dots> = map (\<lambda>i. seqs ! i) (map (\<lambda>j. sort_idx ! j) orig_idx)" by (simp add: comp_def)
  also have "\<dots> = map (\<lambda>i. seqs ! i) [0..<length seqs]" unfolding inv pp(1) ..
  also have "\<dots> = seqs" by (rule map_nth)
  finally show ?thesis using g2 pad un by simp
qed

section \<open>Properties of the recurrent hidden states\<close>

lemma length_rnn_step: "length xs \<le> length h \<Longrightarrow> length (rnn_step cell xs h) = length h"
  by (simp add: rnn_step_def)

lemma nth_rnn_step:
  "length xs \<le> length h \<Longrightarrow> j < length h \<Longrightarrow>
   rnn_step cell xs h ! j = (if j < length xs then cell (xs ! j) (h ! j) else h ! j)"
  by (simp add: rnn_step_def nth_append)

lemma rnn_packed_loop_chunks:
  "rnn_packed_loop cell (concat cs) (map length cs) h = foldl (\<lambda>h c. rnn_step cell c h) h cs"
  by (induction cs arbitrary: h) simp_all

lemma foldl_rnn_step:
  assumes "\<forall>c \<in> set cs. length c \<le> length h" and "j < length h"
  shows "length (foldl (\<lambda>h c. rnn_step cell c h) h cs) = length h \<and>
         foldl (\<lambda>h c. rnn_step cell c h) h cs ! j =
           foldl (\<lambda>a c. if j < length c then cell (c ! j) a else a) (h ! j) cs"
  using assms
proof (induction cs arbitrary: h)
  case Nil
  then show ?case by simp
next
  case (Cons c cs)
  from Cons.prems have c: "length c \<le> length h" by simp
  have l: "length (rnn_step cell c h) = length h" using c by (rule length_rnn_step)
  from Cons.prems have "\<forall>c' \<in> set cs. length c' \<le> length (rnn_step cell c h)"
    and "j < length (rnn_step cell c h)"
    by (simp_all add: l)
  from Cons.IH [OF this] show ?case
    using nth_rnn_step [OF c Cons.prems(2), of cell] by (simp add: l)
qed

lemma foldl_skip:
  "(\<And>t. t \<in> set ts \<Longrightarrow> \<not> P t) \<Longrightarrow> foldl (\<lambda>a t. if P t then f t a else a) a ts = a"
  by (induction ts) simp_all

lemma foldl_take_all:
  "(\<And>t. t \<in> set ts \<Longrightarrow> P t) \<Longrightarrow>
   foldl (\<lambda>a t. if P t then f t a else a) a ts = foldl (\<lambda>a t. f t a) a ts"
  by (induction ts arbitrary: a) simp_all

lemma foldl_upto_length:
  assumes "n \<le> T"
  shows "foldl (\<lambda>a t. if t < n then f t a else a) a [0..<T] = foldl (\<lambda>a t. f t a) a [0..<n]"
proof -
  have "[0..<n + (T - n)] = [0..<n] @ [n..<n + (T - n)]" by (rule upt_add_eq_append) simp
  then have "[0..<T] = [0..<n] @ [n..<T]" using assms by simp
  then have "foldl (\<lambda>a t. if t < n then f t a else a) a [0..<T] =
      foldl (\<lambda>a t. if t < n then f t a else a) (foldl (\<lambda>a t. if t < n then f t a else a) a [0..<n]) [n..<T]"
    by simp
  also have "\<dots> = foldl (\<lambda>a t. if t < n then f t a else a) a [0..<n]"
    by (rule foldl_skip) simp
  also have "\<dots> = foldl (\<lambda>a t. f t a) a [0..<n]"
    by (rule foldl_take_all) simp
  finally show ?thesis .
qed

lemma map_emb_nth: "map (\<lambda>t. emb (s ! t)) [0..<length s] = map emb s"
  by (rule nth_equalityI) simp_all

lemma run_cell_nth:
  "foldl (\<lambda>a t. cell (emb (s ! t)) a) a [0..<length s] = run_cell cell a (map emb s)"
proof -
  have "run_cell cell a (map emb s) = run_cell cell a (map (\<lambda>t. emb (s ! t)) [0..<length s])"
    by (simp only: map_emb_nth)
  also have "\<dots> = foldl (\<lambda>a t. cell (emb (s ! t)) a) a [0..<length s]"
    unfolding run_cell_def foldl_map ..
  finally show ?thesis by simp
qed

lemma foldl_singletons:
  "foldl (\<lambda>h xs. rnn_step cell xs h) [a] (map (\<lambda>x. [x]) ys) = [run_cell cell a ys]"
  by (induction ys arbitrary: a) (simp_all add: run_cell_def rnn_step_def)

text \<open>The embedded padded batch, step by step.\<close>

lemma embedding_pad_sequence:
  assumes "pad_sequence seqs = Inr padded"
  shows "seqs \<noteq> []"
    and "embedding emb padded =
      \<lparr>width = length seqs,
       steps = map (\<lambda>t. map (\<lambda>s. emb (if t < length s then s ! t else 0)) seqs)
                 [0..<max_list (map length seqs)]\<rparr>"
  using assms by (auto simp: pad_sequence_def embedding_def split: if_splits)

lemma packed_hidden_nth:
  fixes seqs :: "'a::zero list list"
  assumes srt: "sorted (rev (map length seqs))" and j: "j < length seqs"
    and T: "T = max_list (map length seqs)"
  shows "length (foldl (\<lambda>h c. rnn_step cell c h) (replicate (length seqs) h0)
           (map (\<lambda>t. take (batch_size_at (map length seqs) t)
                  (map (\<lambda>s. emb (if t < length s then s ! t else 0)) seqs)) [0..<T])) = length seqs \<and>
         foldl (\<lambda>h c. rnn_step cell c h) (replicate (length seqs) h0)
           (map (\<lambda>t. take (batch_size_at (map length seqs) t)
                  (map (\<lambda>s. emb (if t < length s then s ! t else 0)) seqs)) [0..<T]) ! j =
         run_cell cell h0 (map emb (seqs ! j))"
proof -
  let ?ls = "map length seqs"
  let ?X = "\<lambda>t. map (\<lambda>s. emb (if t < length s then s ! t else 0)) seqs"
  let ?c = "\<lambda>t. take (batch_size_at ?ls t) (?X t)"
  let ?h = "replicate (length seqs) h0"
  have lc: "length (?c t) = batch_size_at ?ls t" for t
    using batch_size_at_le [of ?ls t] by simp
  have "\<forall>c \<in> set (map ?c [0..<T]). length c \<le> length ?h"
    using batch_size_at_le [of ?ls] by auto
  moreover have "j < length ?h" using j by simp
  ultimately have f: "length (foldl (\<lambda>h c. rnn_step cell c h) ?h (map ?c [0..<T])) = length ?h \<and>
      foldl (\<lambda>h c. rnn_step cell c h) ?h (map ?c [0..<T]) ! j =
        foldl (\<lambda>a c. if j < length c then cell (c ! j) a else a) (?h ! j) (map ?c [0..<T])"
    by (rule foldl_rnn_step)
  have iff: "j < batch_size_at ?ls t \<longleftrightarrow> t < length (seqs ! j)" for t
    using batch_size_at_iff [OF srt, of j t] j by simp
  have len: "length (seqs ! j) \<le> T"
    unfolding T using j by (intro max_list_ge) simp
  have "foldl (\<lambda>a c. if j < length c then cell (c ! j) a else a) (?h ! j) (map ?c [0..<T]) =
      foldl (\<lambda>a t. if j < length (?c t) then cell (?c t ! j) a else a) h0 [0..<T]"
    using j by (simp add: foldl_map)
  also have "\<dots> = foldl (\<lambda>a t. if t < length (seqs ! j) then cell (emb (seqs ! j ! t)) a else a) h0 [0..<T]"
  proof (rule foldl_cong [OF refl refl])
    fix a t
    show "(if j < length (?c t) then cell (?c t ! j) a else a) =
        (if t < length (seqs ! j) then cell (emb (seqs ! j ! t)) a else a)"
      unfolding lc iff using j by (simp add: iff)
  qed
  also have "\<dots> = foldl (\<lambda>a t. cell (emb (seqs ! j ! t)) a) h0 [0..<length (seqs ! j)]"
    using len by (rule foldl_upto_length)
  also have "\<dots> = run_cell cell h0 (map emb (seqs ! j))"
    by (rule run_cell_nth)
  finally show ?thesis using f by simp
qed

lemma single_hn_run:
  fixes seqs :: "'a::zero list list"
  assumes pad: "pad_sequence seqs = Inr padded" and j: "j < length seqs"
    and pos: "seqs ! j \<noteq> []"
  shows "single_hn cell (embedding emb padded) j (length (seqs ! j)) h0 =
     Inr [run_cell cell h0 (map emb (seqs ! j))]"
proof -
  let ?T = "max_list (map length seqs)"
  let ?n = "length (seqs ! j)"
  note e2 = embedding_pad_sequence(2) [OF pad, of emb]
  have len: "?n \<le> ?T" using j by (intro max_list_ge) simp
  have "map (\<lambda>row. [row ! j]) (take ?n (steps (embedding emb padded))) =
      map (\<lambda>t. [emb (if t < length (seqs ! j) then seqs ! j ! t else 0)]) [0..<?n]"
    using len j by (simp add: e2 take_map comp_def min_absorb2)
  also have "\<dots> = map (\<lambda>t. [emb (seqs ! j ! t)]) [0..<?n]"
    by simp
  also have "\<dots> = map (\<lambda>x. [x]) (map (\<lambda>t. emb (seqs ! j ! t)) [0..<?n])"
    by (simp add: comp_def)
  also have "\<dots> = map (\<lambda>x. [x]) (map emb (seqs ! j))"
    by (simp only: map_emb_nth)
  finally have st: "map (\<lambda>row. [row ! j]) (take ?n (steps (embedding emb padded))) =
      map (\<lambda>x. [x]) (map emb (seqs ! j))" .
  have w: "width (embedding emb padded) = length seqs" by (simp add: e2)
  have "map emb (seqs ! j) \<noteq> []" using pos by simp
  then have "RNN_forward cell
      (TensorInput \<lparr>width = 1, steps = map (\<lambda>x. [x]) (map emb (seqs ! j))\<rparr>) [h0] =
      Inr [run_cell cell h0 (map emb (seqs ! j))]"
    unfolding RNN_forward_def by (simp add: foldl_singletons del: map_map)
  then show ?thesis
    unfolding single_hn_def select_sequence_def w st using j by simp
qed

lemma RNN_forward_packed:
  "batch_sizes p = B # r \<Longrightarrow> length h0 = B \<Longrightarrow>
   RNN_forward cell (PackedSequence p) h0 = Inr (rnn_packed_loop cell (data p) (batch_sizes p) h0)"
  by (simp add: RNN_forward_def)

text \<open>
  C4. Whenever a batch of sequences has been padded and the embedded tensor packed with
  the lengths of the sequences (which the packing accepts only in descending order and
  positive), and all sequences start from the same hidden state \<open>h0\<close>: the run on the
  packed batch returns one final hidden state for each sequence, and it is the final
  hidden state of the run on that sequence alone, cut at its length, from \<open>h0\<close>.
\<close>

theorem packed_matches_per_sample:
  fixes seqs :: "'a::zero list list"
  assumes pad: "pad_sequence seqs = Inr padded"
    and pack: "pack_padded_sequence (embedding emb padded) (map length seqs) = Inr packed"
  shows "\<exists>hn. RNN_forward cell (PackedSequence packed) (replicate (length seqs) h0) = Inr hn \<and>
           length hn = length seqs \<and>
           (\<forall>j < length seqs.
              single_hn cell (embedding emb padded) j (length (seqs ! j)) h0 = Inr [hn ! j])"
proof -
  let ?ls = "map length seqs"
  let ?T = "max_list ?ls"
  let ?X = "\<lambda>t. map (\<lambda>s. emb (if t < length s then s ! t else 0)) seqs"
  let ?cs = "map (\<lambda>t. take (batch_size_at ?ls t) (?X t)) [0..<?T]"
  note e2 = embedding_pad_sequence(2) [OF pad, of emb]
  from pack have ne: "?ls \<noteq> []" and last: "last ?ls \<noteq> 0" and srt: "sorted (rev ?ls)"
    by (auto simp: pack_padded_sequence_def split: if_splits)
  have hd: "hd ?ls = ?T" using srt ne by (rule hd_sorted_rev_max)
  have pos: "seqs ! j \<noteq> []" if "j < length seqs" for j
  proof -
    have "last ?ls \<le> ?ls ! j"
      using sorted_rev_nth_mono [OF srt, of j "length ?ls - 1"] that ne
      by (simp add: last_conv_nth)
    then show ?thesis using last that by auto
  qed
  have lc: "map length ?cs = map (batch_size_at ?ls) [0..<?T]"
    using batch_size_at_le [of ?ls] by (simp add: min_absorb1)
  have w: "width (embedding emb padded) = length ?ls" and
    n: "length (steps (embedding emb padded)) = ?T"
    by (simp_all add: e2)
  have d: "map (\<lambda>t. take (batch_size_at ?ls t) (steps (embedding emb padded) ! t)) [0..<?T] = ?cs"
    by (rule map_cong [OF refl]) (simp add: e2 cong: if_cong)
  from pack have pk: "packed = \<lparr>data = concat ?cs, batch_sizes = map length ?cs\<rparr>"
    unfolding pack_padded_sequence_def w n hd lc using ne last srt by (simp add: d)
  have Tpos: "0 < ?T"
  proof -
    have "0 < length seqs" using ne by simp
    from pos [OF this] have "0 < length (seqs ! 0)" by simp
    moreover have "length (seqs ! 0) \<le> ?T" using \<open>0 < length seqs\<close> by (intro max_list_ge) simp
    ultimately show ?thesis by (rule less_le_trans)
  qed
  then obtain T' where T': "?T = Suc T'" by (cases ?T) auto
  have b0: "batch_size_at ?ls 0 = length seqs"
  proof -
    have "\<forall>l \<in> set ?ls. 0 < l" using pos by (auto simp: in_set_conv_nth)
    then show ?thesis by (simp add: batch_size_at_def)
  qed
  let ?hn = "foldl (\<lambda>h c. rnn_step cell c h) (replicate (length seqs) h0) ?cs"
  have bs: "batch_sizes packed = length seqs # map (batch_size_at ?ls) [Suc 0..<?T]"
    unfolding pk lc using Tpos b0 by (simp add: upt_conv_Cons)
  have loop: "rnn_packed_loop cell (data packed) (batch_sizes packed) (replicate (length seqs) h0) = ?hn"
    unfolding pk by (simp only: packed.select_convs rnn_packed_loop_chunks)
  have run: "RNN_forward cell (PackedSequence packed) (replicate (length seqs) h0) = Inr ?hn"
    using RNN_forward_packed [OF bs, of "replicate (length seqs) h0" cell] loop by simp
  have "length ?hn = length seqs \<and> ?hn ! j = run_cell cell h0 (map emb (seqs ! j))"
    if "j < length seqs" for j
    using srt that refl by (rule packed_hidden_nth)
  moreover have "0 < length seqs" using ne by simp
  ultimately show ?thesis
    using run single_hn_run [OF pad _ pos, of _ cell emb h0] by auto
qed

theorem packed_matches_per_sample_witness:
  "pad_sequence test_inputs = Inr test_inputs_padded \<and>
   pack_padded_sequence (embedding int test_inputs_padded) (map length test_inputs) =
     Inr test_packed_input \<and>
   RNN_forward (\<lambda>x h. 2 * h + x) (PackedSequence test_packed_input) (replicate 5 1) =
     Inr [63, 46, 29, 16, 19] \<and>
   single_hn (\<lambda>x h. 2 * h + x) (embedding int test_inputs_padded) 2 3 1 = Inr [29]"
proof -
  have p: "pad_sequence test_inputs = Inr test_inputs_padded"
    by (simp add: pad_sequence_def test_inputs_def test_inputs_padded_def max_list_def upt_conv_Cons)
  have k: "pack_padded_sequence (embedding int test_inputs_padded) (map length test_inputs) =
     Inr test_packed_input"
    by (simp add: pack_padded_sequence_def embedding_def test_inputs_def test_inputs_padded_def
        test_packed_input_def batch_size_at_def upt_conv_Cons)
  have r: "RNN_forward (\<lambda>x h. 2 * h + x) (PackedSequence test_packed_input) (replicate 5 1) =
     Inr [63, 46, 29, 16, 19 :: int]"
    by (simp add: RNN_forward_def test_packed_input_def rnn_step_def numeral_eq_Suc)
  have l: "length test_inputs = 5" "length (test_inputs ! 2) = 3"
    by (simp_all add: test_inputs_def)
  from packed_matches_per_sample [OF p k, of "\<lambda>x h. 2 * h + x" 1] obtain hn
    where run: "RNN_forward (\<lambda>x h. 2 * h + x) (PackedSequence test_packed_input) (replicate 5 1) =
        Inr hn"
      and each: "\<forall>j < 5. single_hn (\<lambda>x h. 2 * h + x) (embedding int test_inputs_padded) j
        (length (test_inputs ! j)) 1 = Inr [hn ! j]"
    unfolding l by blast
  from run r have hn: "hn = [63, 46, 29, 16, 19]" by simp
  from each have "single_hn (\<lambda>x h. 2 * h + x) (embedding int test_inputs_padded) 2
        (length (test_inputs ! 2)) 1 = Inr [hn ! 2]"
    by simp
  then have "single_hn (\<lambda>x h. 2 * h + x) (embedding int test_inputs_padded) 2 3 1 = Inr [29]"
    unfolding l hn by simp
  with p k r show ?thesis by simp
qed

lemma foldl_const_steps:
  "foldl (\<lambda>a t. g x a) a [m..<n] = foldl (\<lambda>a y. g y a) a (replicate (n - m) x)"
proof (induction "n - m" arbitrary: m a)
  case 0
  then show ?case by simp
next
  case (Suc k)
  then have "m < n" and "k = n - Suc m" by simp_all
  then show ?case
    using Suc.hyps(1) [of "Suc m" "g x a"] Suc.hyps(2) [symmetric]
    by (simp add: upt_conv_Cons)
qed

text \<open>
  On the padded tensor the recurrence does not stop where a sequence ends: its final
  hidden state is the state at its true end, carried on through one step on the
  embedded padding for each padded position.
\<close>

lemma padded_hidden_nth:
  fixes seqs :: "'a::zero list list"
  assumes pad: "pad_sequence seqs = Inr padded" and j: "j < length seqs"
    and T: "steps padded \<noteq> []"
  shows "\<exists>hn. RNN_forward cell (TensorInput (embedding emb padded)) (replicate (length seqs) h0) = Inr hn \<and>
           hn ! j = run_cell cell (run_cell cell h0 (map emb (seqs ! j)))
                      (replicate (length (steps padded) - length (seqs ! j)) (emb 0))"
proof -
  let ?T = "max_list (map length seqs)"
  let ?n = "length (seqs ! j)"
  let ?X = "\<lambda>t. map (\<lambda>s. emb (if t < length s then s ! t else 0)) seqs"
  let ?h = "replicate (length seqs) h0"
  let ?F = "\<lambda>a t. cell (emb (if t < ?n then seqs ! j ! t else 0)) a"
  note e2 = embedding_pad_sequence(2) [OF pad, of emb]
  have sp: "length (steps padded) = ?T"
    using pad by (auto simp: pad_sequence_def split: if_splits)
  have len: "?n \<le> ?T" using j by (intro max_list_ge) simp
  have "0 < length (steps padded)" using T by simp
  then have "0 < ?T" by (simp only: sp)
  then have Tne: "[0..<?T] \<noteq> []" by simp
  have run: "RNN_forward cell (TensorInput (embedding emb padded)) ?h =
      Inr (foldl (\<lambda>h c. rnn_step cell c h) ?h (map ?X [0..<?T]))"
    using Tne by (simp add: RNN_forward_def e2)
  have "\<forall>c \<in> set (map ?X [0..<?T]). length c \<le> length ?h" by simp
  moreover have "j < length ?h" using j by simp
  ultimately have "foldl (\<lambda>h c. rnn_step cell c h) ?h (map ?X [0..<?T]) ! j =
        foldl (\<lambda>a c. if j < length c then cell (c ! j) a else a) (?h ! j) (map ?X [0..<?T])"
    using foldl_rnn_step [of "map ?X [0..<?T]" ?h j cell] by blast
  also have "\<dots> = foldl ?F h0 [0..<?T]"
    using j by (simp add: foldl_map)
  finally have A: "foldl (\<lambda>h c. rnn_step cell c h) ?h (map ?X [0..<?T]) ! j = foldl ?F h0 [0..<?T]" .
  have split: "[0..<?T] = [0..<?n] @ [?n..<?T]"
    using len upt_add_eq_append [of 0 ?n "?T - ?n"] by simp
  have B: "foldl ?F h0 [0..<?T] = foldl ?F (foldl ?F h0 [0..<?n]) [?n..<?T]"
    by (subst split) simp
  have "foldl ?F h0 [0..<?n] = foldl (\<lambda>a t. cell (emb (seqs ! j ! t)) a) h0 [0..<?n]"
    by (rule foldl_cong [OF refl refl]) simp
  then have C: "foldl ?F h0 [0..<?n] = run_cell cell h0 (map emb (seqs ! j))"
    by (simp only: run_cell_nth)
  have "foldl ?F a [?n..<?T] = foldl (\<lambda>a t. cell (emb 0) a) a [?n..<?T]" for a
    by (rule foldl_cong [OF refl refl]) simp
  then have D: "foldl ?F a [?n..<?T] = run_cell cell a (replicate (?T - ?n) (emb 0))" for a
    unfolding run_cell_def by (simp only: foldl_const_steps)
  have "foldl (\<lambda>h c. rnn_step cell c h) ?h (map ?X [0..<?T]) ! j =
      run_cell cell (run_cell cell h0 (map emb (seqs ! j))) (replicate (?T - ?n) (emb 0))"
    by (simp only: A B C D)
  then show ?thesis using run by (simp add: sp)
qed

text \<open>
  C7. There is a batch with a sequence shorter than the longest one for which the run
  on the padded tensor, without packing, ends in a hidden state for that sequence that
  differs from the one of the run on the sequence alone, cut at its true length.
\<close>

theorem padding_changes_final_state:
  "\<exists>(w :: rnn_weights) emb (seqs :: nat list list) padded j h0 hn hs.
     pad_sequence seqs = Inr padded \<and> j < length seqs \<and>
     length (seqs ! j) < length (steps padded) \<and>
     RNN_forward (rnn_tanh_cell w) (TensorInput (embedding emb padded))
       (replicate (length seqs) h0) = Inr hn \<and>
     single_hn (rnn_tanh_cell w) (embedding emb padded) j (length (seqs ! j)) h0 = Inr [hs] \<and>
     hn ! j \<noteq> hs"
proof -
  let ?seqs = "[[1, 1], [1]] :: nat list list"
  let ?padded = "\<lparr>width = 2, steps = [[1, 1], [1, 0 :: nat]]\<rparr>"
  have ne: "tanh (1::real) \<noteq> 1" using tanh_real_lt_1 [of 1] by simp
  have p: "pad_sequence ?seqs = Inr ?padded"
    by (simp add: pad_sequence_def max_list_def)
  have r: "RNN_forward (rnn_tanh_cell demo_weights) (TensorInput (embedding demo_embedding ?padded))
       (replicate (length ?seqs) [0]) = Inr [[tanh (1 + tanh 1)], [tanh (tanh 1)]]"
    by (simp add: RNN_forward_def embedding_def demo_embedding_def rnn_step_def rnn_tanh_cell_def
        matvec_def demo_weights_def)
  have s: "single_hn (rnn_tanh_cell demo_weights) (embedding demo_embedding ?padded) 1
       (length (?seqs ! 1)) [0] = Inr [[tanh 1]]"
    by (simp add: single_hn_def select_sequence_def RNN_forward_def embedding_def
        demo_embedding_def rnn_step_def rnn_tanh_cell_def matvec_def demo_weights_def)
  have d: "[[tanh (1 + tanh 1)], [tanh (tanh (1::real))]] ! 1 \<noteq> [tanh 1]"
    using ne by simp
  show ?thesis
    apply (rule exI [of _ demo_weights], rule exI [of _ demo_embedding], rule exI [of _ ?seqs])
    apply (rule exI [of _ ?padded], rule exI [of _ 1], rule exI [of _ "[0]"])
    apply (rule exI [of _ "[[tanh (1 + tanh 1)], [tanh (tanh 1)]]"], rule exI [of _ "[tanh 1]"])
    using p r s d by simp
qed

end
